theory Spec2Isabelle
  imports Main
begin

section \<open>JavaScript values\<close>

text \<open>
  Watchers and dependency registries are objects; the model names each by its \<open>id\<close>
  field (\<open>++uid\<close> for a Watcher, \<open>uid++\<close> for a Dep), which the constructors make unique.
  An object of the data world is named by a reference.
\<close>

type_synonym wid = nat
type_synonym did = nat
type_synonym ref = nat

datatype err = TypeError | UserError nat

text \<open>
  The values a getter can return. Numbers are integers plus \<open>NaN\<close> (no claim depends on
  arithmetic); \<open>Func\<close> is a function value, \<open>Ref\<close> an object or array.
\<close>

datatype val = Undefined | Null | Bool bool | Num int | NaN | Str string | Func nat | Ref ref

text \<open>The operator \<open>!==\<close>: identity on references, equality on primitives, and \<open>NaN !== NaN\<close>.\<close>

definition strict_ne :: "val \<Rightarrow> val \<Rightarrow> bool" where
  "strict_ne a b = (a \<noteq> b \<or> a = NaN)"

text \<open>The test \<open>!obj\<close>.\<close>

definition falsy :: "val \<Rightarrow> bool" where
  "falsy v = (v = Undefined \<or> v = Null \<or> v = Bool False \<or> v = Num 0 \<or> v = NaN \<or> v = Str [])"

text \<open>
  Modelled from the spec: \<open>isObject\<close> of \<open>shared/util\<close> is not among the sources; the spec
  calls its positive case "a structured (non-primitive) value". A function value is not one
  (\<open>typeof\<close> yields \<open>'function'\<close>).
\<close>

definition isObject :: "val \<Rightarrow> bool" where
  "isObject v = (case v of Ref _ \<Rightarrow> True | _ \<Rightarrow> False)"

text \<open>
  Modelled from the spec: \<open>remove\<close> of \<open>shared/util\<close> is not among the sources; the spec's
  \<open>unsubscribe\<close> is "remove unit; no-op if absent".
\<close>

definition remove_arr :: "'a list \<Rightarrow> 'a \<Rightarrow> 'a list" where
  "remove_arr arr item = remove1 item arr"

section \<open>The shared error sink\<close>

datatype info = GetterFor string | CallbackFor string | NextTickInfo

type_synonym sink = "(err \<times> val \<times> info) list"

text \<open>
  Modelled from the spec: \<open>handleError\<close> of \<open>util/error\<close> is not among the sources; the spec
  describes it as the error-reporting sink \<open>report(error, context, info-string)\<close>, which
  records the error and returns.
\<close>

definition handleError :: "sink \<Rightarrow> err \<Rightarrow> val \<Rightarrow> info \<Rightarrow> sink" where
  "handleError s e ctx i = s @ [(e, ctx, i)]"

section \<open>The data world seen by a getter\<close>

text \<open>
  A getter is an arbitrary function of the component. What the watcher observes of one call
  is the sequence of registries whose \<open>depend()\<close> the call invokes (through the reactive
  property getters it reads) and whether it returns or throws.
\<close>

record behaviour =
  reads :: "did list"
  outcome :: "err + val"

text \<open>
  The world a getter runs in: \<open>readProp obj key\<close> is the value of \<open>obj[key]\<close> on a receiver
  that is neither \<open>null\<close> nor \<open>undefined\<close>, with the registries whose \<open>depend()\<close> the read
  invokes; \<open>trav v\<close> are the registries whose \<open>depend()\<close> the property reads of
  \<open>traverse(v)\<close> invoke; \<open>production\<close> is \<open>process.env.NODE_ENV === 'production'\<close>.
\<close>

record world =
  readProp :: "val \<Rightarrow> string \<Rightarrow> did list \<times> val"
  trav :: "val \<Rightarrow> did list"
  production :: bool

type_synonym getter = "world \<Rightarrow> val \<Rightarrow> behaviour"

section \<open>Watcher, Dep and the global state\<close>

record watcher =
  vm :: ref
  expression :: string
  cb :: "val \<Rightarrow> val \<Rightarrow> err option"
  deep :: bool
  user :: bool
  lazy :: bool
  sync :: bool
  dirty :: bool
  active :: bool
  deps :: "did list"
  newDeps :: "did list"
  depIds :: "did set"
  newDepIds :: "did set"
  getter :: getter
  wvalue :: val

text \<open>The two fields of a component that the class Watcher touches.\<close>

record component =
  vm_watcher :: "wid option"
  vm_watchers :: "wid list"
  vm_isBeingDestroyed :: bool

text \<open>
  The state: the watcher objects, each Dep's \<open>subs\<close> array, \<open>Dep.target\<close> and
  \<open>targetStack\<close> (its head is the top of the stack), the components, the watcher \<open>uid\<close>
  counter, the error sink, the scheduler's queue, and two logs that the proofs read:
  \<open>evaluated\<close> gets the watcher at every call of a getter, \<open>fired\<close> gets
  (watcher, new value, old value) at every call of a reaction callback.
  \<open>null\<close> and \<open>undefined\<close> in \<open>Dep.target\<close> are both \<open>None\<close>: the code only tests its
  truthiness.
\<close>

record state =
  watchers :: "wid \<Rightarrow> watcher"
  subs :: "did \<Rightarrow> wid list"
  target :: "wid option"
  targetStack :: "wid list"
  vms :: "ref \<Rightarrow> component"
  uid :: nat
  reported :: sink
  queue :: "wid list"
  evaluated :: "wid list"
  fired :: "(wid \<times> val \<times> val) list"

subsection \<open>Dep\<close>

definition addSub :: "state \<Rightarrow> did \<Rightarrow> wid \<Rightarrow> state" where
  "addSub st d w = st\<lparr>subs := (subs st)(d := subs st d @ [w])\<rparr>"

definition removeSub :: "state \<Rightarrow> did \<Rightarrow> wid \<Rightarrow> state" where
  "removeSub st d w = st\<lparr>subs := (subs st)(d := remove_arr (subs st d) w)\<rparr>"

definition pushTarget :: "state \<Rightarrow> wid option \<Rightarrow> state" where
  "pushTarget st t =
     st\<lparr>targetStack := (case target st of Some x \<Rightarrow> x # targetStack st | None \<Rightarrow> targetStack st),
        target := t\<rparr>"

text \<open>\<open>pop\<close> of an empty array returns \<open>undefined\<close>.\<close>

definition popTarget :: "state \<Rightarrow> state" where
  "popTarget st =
     (case targetStack st of
        [] \<Rightarrow> st\<lparr>target := None\<rparr>
      | x # xs \<Rightarrow> st\<lparr>target := Some x, targetStack := xs\<rparr>)"

subsection \<open>Watcher\<close>

definition addDep :: "state \<Rightarrow> wid \<Rightarrow> did \<Rightarrow> state" where
  "addDep st w d =
     (let W = watchers st w in
      if d \<notin> newDepIds W then
        (let st1 = st\<lparr>watchers := (watchers st)
                      (w := W\<lparr>newDeps := newDeps W @ [d], newDepIds := insert d (newDepIds W)\<rparr>)\<rparr>
         in if d \<notin> depIds W then addSub st1 d w else st1)
      else st)"

definition dep_depend :: "state \<Rightarrow> did \<Rightarrow> state" where
  "dep_depend st d = (case target st of Some t \<Rightarrow> addDep st t d | None \<Rightarrow> st)"

text \<open>A run of \<open>depend()\<close> calls, in the order given.\<close>

definition depend_all :: "did list \<Rightarrow> state \<Rightarrow> state" where
  "depend_all ds st = fold (\<lambda>d s. dep_depend s d) ds st"

text \<open>The loop \<open>while (i--)\<close> walks \<open>deps\<close> from its last element to its first.\<close>

definition cleanupDeps :: "state \<Rightarrow> wid \<Rightarrow> state" where
  "cleanupDeps st w =
     (let W = watchers st w;
          st1 = fold (\<lambda>d s. if d \<notin> newDepIds W then removeSub s d w else s) (rev (deps W)) st
      in st1\<lparr>watchers := (watchers st1)
               (w := (watchers st1 w)\<lparr>depIds := newDepIds W, newDepIds := {},
                                        deps := newDeps W, newDeps := []\<rparr>)\<rparr>)"

text \<open>
  \<open>traverse(value)\<close> inside \<open>get\<close>: it returns at once on a value that is no object, and
  otherwise reads the nested properties, which invokes \<open>depend()\<close> on their registries.
  Here the traversal is taken to return; its recursion is modelled in the section on deep
  traversal.
\<close>

definition traverse_reads :: "world \<Rightarrow> val \<Rightarrow> did list" where
  "traverse_reads env v = (if isObject v then trav env v else [])"

text \<open>
  \<open>get\<close> returns the value, or the error it rethrows. In both cases the \<open>finally\<close> block
  has run. After a caught error \<open>value\<close> is still \<open>undefined\<close>.
\<close>

definition get :: "world \<Rightarrow> state \<Rightarrow> wid \<Rightarrow> state \<times> (err + val)" where
  "get env st w =
     (let st1 = pushTarget st (Some w);
          W = watchers st1 w;
          b = getter W env (Ref (vm W));
          st2 = depend_all (reads b) (st1\<lparr>evaluated := evaluated st1 @ [w]\<rparr>);
          st3 = (case outcome b of
                   Inr v \<Rightarrow> st2
                 | Inl e \<Rightarrow> if user W
                     then st2\<lparr>reported := handleError (reported st2) e (Ref (vm W)) (GetterFor (expression W))\<rparr>
                     else st2);
          v = (case outcome b of Inr v \<Rightarrow> v | Inl e \<Rightarrow> Undefined);
          st4 = (if deep W then depend_all (traverse_reads env v) st3 else st3);
          st5 = popTarget st4;
          st6 = cleanupDeps st5 w
      in (st6, case outcome b of
                 Inr v \<Rightarrow> Inr v
               | Inl e \<Rightarrow> if user W then Inr Undefined else Inl e))"

text \<open>
  \<open>run\<close> returns the error that escapes it, if any. A call of the callback is logged
  in \<open>fired\<close> before its outcome is known.
\<close>

definition run :: "world \<Rightarrow> state \<Rightarrow> wid \<Rightarrow> state \<times> err option" where
  "run env st w =
     (if active (watchers st w) then
        (case get env st w of
           (st1, Inl e) \<Rightarrow> (st1, Some e)
         | (st1, Inr v) \<Rightarrow>
             (let W = watchers st1 w in
              if strict_ne v (wvalue W) \<or> isObject v \<or> deep W then
                (let oldValue = wvalue W;
                     st2 = st1\<lparr>watchers := (watchers st1)(w := W\<lparr>wvalue := v\<rparr>),
                              fired := fired st1 @ [(w, v, oldValue)]\<rparr>
                 in if user W then
                      (case cb W v oldValue of
                         None \<Rightarrow> (st2, None)
                       | Some e \<Rightarrow> (st2\<lparr>reported := handleError (reported st2) e (Ref (vm W))
                                                     (CallbackFor (expression W))\<rparr>, None))
                    else (st2, cb W v oldValue))
              else (st1, None)))
      else (st, None))"

definition evaluate :: "world \<Rightarrow> state \<Rightarrow> wid \<Rightarrow> state \<times> err option" where
  "evaluate env st w =
     (case get env st w of
        (st1, Inl e) \<Rightarrow> (st1, Some e)
      | (st1, Inr v) \<Rightarrow>
          (st1\<lparr>watchers := (watchers st1)(w := (watchers st1 w)\<lparr>wvalue := v, dirty := False\<rparr>)\<rparr>, None))"

definition watcher_depend :: "state \<Rightarrow> wid \<Rightarrow> state" where
  "watcher_depend st w = depend_all (rev (deps (watchers st w))) st"

text \<open>
  Modelled from the spec: \<open>queueWatcher\<close> of \<open>observer/scheduler\<close> is not among the sources;
  the spec's \<open>enqueue(unit)\<close> reads "if the unit's identifier is not already present in the
  pending queue, add it".
\<close>

definition queueWatcher :: "state \<Rightarrow> wid \<Rightarrow> state" where
  "queueWatcher st w = (if w \<in> set (queue st) then st else st\<lparr>queue := queue st @ [w]\<rparr>)"

definition update :: "world \<Rightarrow> state \<Rightarrow> wid \<Rightarrow> state \<times> err option" where
  "update env st w =
     (if lazy (watchers st w) then
        (st\<lparr>watchers := (watchers st)(w := (watchers st w)\<lparr>dirty := True\<rparr>)\<rparr>, None)
      else if sync (watchers st w) then run env st w
      else (queueWatcher st w, None))"

definition teardown :: "state \<Rightarrow> wid \<Rightarrow> state" where
  "teardown st w =
     (let W = watchers st w in
      if active W then
        (let c = vms st (vm W);
             st1 = (if \<not> vm_isBeingDestroyed c
                    then st\<lparr>vms := (vms st)(vm W := c\<lparr>vm_watchers := remove_arr (vm_watchers c) w\<rparr>)\<rparr>
                    else st);
             st2 = fold (\<lambda>d s. removeSub s d w) (rev (deps W)) st1
         in st2\<lparr>watchers := (watchers st2)(w := (watchers st2 w)\<lparr>active := False\<rparr>)\<rparr>)
      else st)"

text \<open>The fields of a watcher that dependency collection never writes.\<close>

definition config :: "watcher \<Rightarrow> ref \<times> string \<times> (val \<Rightarrow> val \<Rightarrow> err option) \<times> bool \<times> bool \<times> bool \<times> bool \<times> bool \<times> bool \<times> getter \<times> val" where
  "config W = (vm W, expression W, cb W, deep W, user W, lazy W, sync W, dirty W, active W, getter W, wvalue W)"

subsection \<open>The constructor\<close>

text \<open>
  Modelled from the spec: \<open>noop\<close> of \<open>shared/util\<close> is not among the sources; it is the
  "no-op getter" that reads nothing and returns \<open>undefined\<close>.
\<close>

definition noop :: getter where
  "noop env v = \<lparr>reads = [], outcome = Inr Undefined\<rparr>"

text \<open>
  \<open>expOrFn\<close> is a function (its source text and what it does) or a path string.
  The option \<open>before\<close> is only stored by the class and is left out.
\<close>

datatype expOrFn = Fn string getter | Path string

record options =
  opt_deep :: bool
  opt_user :: bool
  opt_lazy :: bool
  opt_sync :: bool

definition toString :: "expOrFn \<Rightarrow> string" where
  "toString x = (case x of Fn src g \<Rightarrow> src | Path p \<Rightarrow> p)"

subsection \<open>parsePath\<close>

text \<open>The class \<open>\w\<close> of a regular expression without the unicode flag: letters, digits, underscore.\<close>

definition word_char :: "char \<Rightarrow> bool" where
  "word_char c =
     (let n = (of_char c :: nat)
      in (97 \<le> n \<and> n \<le> 122) \<or> (65 \<le> n \<and> n \<le> 90) \<or> (48 \<le> n \<and> n \<le> 57) \<or> n = 95)"

text \<open>\<open>bailRE = /[^\w.$]/\<close>; \<open>bailRE.test(path)\<close> holds when some character matches.\<close>

definition bail_char :: "char \<Rightarrow> bool" where
  "bail_char c = (\<not> word_char c \<and> c \<noteq> CHR ''.'' \<and> c \<noteq> CHR ''$'')"

definition bailRE_test :: "string \<Rightarrow> bool" where
  "bailRE_test path = list_ex bail_char path"

text \<open>\<open>path.split('.')\<close>: never empty; the empty string gives one empty segment.\<close>

fun split_dot :: "string \<Rightarrow> string list" where
  "split_dot [] = [[]]"
| "split_dot (c # cs) =
     (if c = CHR ''.'' then [] # split_dot cs
      else (case split_dot cs of [] \<Rightarrow> [[c]] | s # ss \<Rightarrow> (c # s) # ss))"

text \<open>A property read throws a TypeError on \<open>null\<close> and \<open>undefined\<close>.\<close>

definition getProp :: "world \<Rightarrow> val \<Rightarrow> string \<Rightarrow> err + (did list \<times> val)" where
  "getProp env obj key =
     (if obj = Undefined \<or> obj = Null then Inl TypeError else Inr (readProp env obj key))"

text \<open>The loop of the function that \<open>parsePath\<close> returns; \<open>rs\<close> are the registries read so far.\<close>

fun path_loop :: "world \<Rightarrow> string list \<Rightarrow> val \<Rightarrow> did list \<Rightarrow> behaviour" where
  "path_loop env [] obj rs = \<lparr>reads = rs, outcome = Inr obj\<rparr>"
| "path_loop env (s # ss) obj rs =
     (if falsy obj then \<lparr>reads = rs, outcome = Inr Undefined\<rparr>
      else (case getProp env obj s of
              Inl e \<Rightarrow> \<lparr>reads = rs, outcome = Inl e\<rparr>
            | Inr (ds, v) \<Rightarrow> path_loop env ss v (rs @ ds)))"

definition path_getter :: "string list \<Rightarrow> getter" where
  "path_getter segments env obj = path_loop env segments obj []"

text \<open>\<open>parsePath\<close> returns \<open>undefined\<close> (\<open>None\<close>) or the closure over \<open>segments\<close>.\<close>

definition parsePath :: "string \<Rightarrow> string list option" where
  "parsePath path = (if bailRE_test path then None else Some (split_dot path))"

text \<open>The getter that the constructor stores (the development-only warning is left out).\<close>

definition getter_of :: "expOrFn \<Rightarrow> getter" where
  "getter_of x =
     (case x of
        Fn src g \<Rightarrow> g
      | Path p \<Rightarrow> (case parsePath p of Some segments \<Rightarrow> path_getter segments | None \<Rightarrow> noop))"

text \<open>
  \<open>new Watcher(vm, expOrFn, cb, options, isRenderWatcher)\<close> returns the new watcher, or
  the error that its first \<open>get\<close> rethrows.
\<close>

definition Watcher_new ::
  "world \<Rightarrow> state \<Rightarrow> ref \<Rightarrow> expOrFn \<Rightarrow> (val \<Rightarrow> val \<Rightarrow> err option) \<Rightarrow> options option \<Rightarrow> bool
     \<Rightarrow> state \<times> (err + wid)" where
  "Watcher_new env st v x cbf opts isRenderWatcher =
     (let this = Suc (uid st);
          c = vms st v;
          c1 = (if isRenderWatcher then c\<lparr>vm_watcher := Some this\<rparr> else c);
          c2 = c1\<lparr>vm_watchers := vm_watchers c1 @ [this]\<rparr>;
          lz = (case opts of Some p \<Rightarrow> opt_lazy p | None \<Rightarrow> False);
          W = \<lparr>vm = v,
               expression = (if production env then [] else toString x),
               cb = cbf,
               deep = (case opts of Some p \<Rightarrow> opt_deep p | None \<Rightarrow> False),
               user = (case opts of Some p \<Rightarrow> opt_user p | None \<Rightarrow> False),
               lazy = lz,
               sync = (case opts of Some p \<Rightarrow> opt_sync p | None \<Rightarrow> False),
               dirty = lz,
               active = True,
               deps = [], newDeps = [], depIds = {}, newDepIds = {},
               getter = getter_of x,
               wvalue = Undefined\<rparr>;
          st1 = st\<lparr>watchers := (watchers st)(this := W), vms := (vms st)(v := c2), uid := this\<rparr>
      in if lz then (st1, Inr this)
         else (case get env st1 this of
                 (st2, Inl e) \<Rightarrow> (st2, Inl e)
               | (st2, Inr r) \<Rightarrow>
                   (st2\<lparr>watchers := (watchers st2)(this := (watchers st2 this)\<lparr>wvalue := r\<rparr>)\<rparr>,
                    Inr this)))"

subsection \<open>Sequences of calls\<close>

text \<open>
  The methods of Watcher and Dep that change subscriptions, except the bare \<open>Dep.addSub\<close>
  (which only \<open>addDep\<close> calls). Each evaluation carries the world it runs in.
\<close>

datatype op =
    PushTarget "wid option" | PopTarget
  | DepDepend did | RemoveSub did wid
  | AddDep wid did | CleanupDeps wid | WatcherDepend wid
  | Get world wid | Run world wid | Evaluate world wid | Update world wid
  | Teardown wid

fun apply_op :: "op \<Rightarrow> state \<Rightarrow> state" where
  "apply_op (PushTarget t) st = pushTarget st t"
| "apply_op PopTarget st = popTarget st"
| "apply_op (DepDepend d) st = dep_depend st d"
| "apply_op (RemoveSub d w) st = removeSub st d w"
| "apply_op (AddDep w d) st = addDep st w d"
| "apply_op (CleanupDeps w) st = cleanupDeps st w"
| "apply_op (WatcherDepend w) st = watcher_depend st w"
| "apply_op (Get env w) st = fst (get env st w)"
| "apply_op (Run env w) st = fst (run env st w)"
| "apply_op (Evaluate env w) st = fst (evaluate env st w)"
| "apply_op (Update env w) st = fst (update env st w)"
| "apply_op (Teardown w) st = teardown st w"

definition exec :: "op list \<Rightarrow> state \<Rightarrow> state" where
  "exec ops st = fold apply_op ops st"

text \<open>A state in which no watcher has collected a dependency yet.\<close>

definition unsubscribed :: "state \<Rightarrow> state" where
  "unsubscribed st =
     st\<lparr>watchers := (\<lambda>w. (watchers st w)\<lparr>deps := [], newDeps := [], depIds := {}, newDepIds := {}\<rparr>),
        subs := (\<lambda>d. [])\<rparr>"

text \<open>What can reach a watcher from outside: a notification, the scheduler's flush, a teardown.\<close>

datatype reaction = ByUpdate world | ByRun world | ByTeardown

fun react :: "wid \<Rightarrow> reaction \<Rightarrow> state \<Rightarrow> state" where
  "react w (ByUpdate env) st = fst (update env st w)"
| "react w (ByRun env) st = fst (run env st w)"
| "react w ByTeardown st = teardown st w"

text \<open>The registries whose \<open>depend()\<close> is invoked during one pass of \<open>get\<close>.\<close>

definition pass_reads :: "world \<Rightarrow> state \<Rightarrow> wid \<Rightarrow> did list" where
  "pass_reads env st w =
     (let W = watchers st w;
          b = getter W env (Ref (vm W))
      in reads b @ (if deep W
                    then traverse_reads env (case outcome b of Inr v \<Rightarrow> v | Inl e \<Rightarrow> Undefined)
                    else []))"

text \<open>The first occurrences of the registries of \<open>ds\<close> that are not in \<open>ids\<close>.\<close>

fun collect :: "did set \<Rightarrow> did list \<Rightarrow> did list" where
  "collect ids [] = []"
| "collect ids (d # ds) = (if d \<in> ids then collect ids ds else d # collect (insert d ids) ds)"

text \<open>
  The states that the watcher-side calls keep: no Dep lists a watcher twice, a listed
  watcher has the Dep among its recorded identifiers, and each array agrees with its set.
\<close>

definition consistent :: "state \<Rightarrow> bool" where
  "consistent st =
     ((\<forall>d. distinct (subs st d)) \<and>
      (\<forall>w d. w \<in> set (subs st d) \<longrightarrow> d \<in> depIds (watchers st w) \<union> newDepIds (watchers st w)) \<and>
      (\<forall>w. set (deps (watchers st w)) = depIds (watchers st w) \<and>
           set (newDeps (watchers st w)) = newDepIds (watchers st w)))"

text \<open>The subscription graph: what \<open>consistent\<close> depends on.\<close>

definition links ::
  "state \<Rightarrow> (wid \<Rightarrow> did list \<times> did list \<times> did set \<times> did set) \<times> (did \<Rightarrow> wid list)" where
  "links st =
     ((\<lambda>w. (deps (watchers st w), newDeps (watchers st w),
             depIds (watchers st w), newDepIds (watchers st w))), subs st)"

section \<open>The tick mechanism\<close>

datatype timer = MacroTask | MicroTask

text \<open>
  A callback given to \<open>nextTick\<close>: a label, and what it does when called: it may call
  \<open>nextTick\<close> again, and it may throw.
\<close>

datatype tick_cb = TickCb nat "tick_step list"
  and tick_step = CallNextTick "tick_cb option" val | Throw err

text \<open>
  The closure that \<open>nextTick\<close> pushes: the callback, the context, and whether \<open>_resolve\<close>
  is set when it runs (no callback, and Promise is defined).
\<close>

record wrapper =
  w_cb :: "tick_cb option"
  w_ctx :: val
  w_resolve :: bool

text \<open>
  \<open>timers\<close> logs the calls of \<open>macroTimerFunc\<close> and \<open>microTimerFunc\<close>, each of which
  schedules one \<open>flushCallbacks\<close>; \<open>ran\<close> logs the callbacks called, \<open>resolved\<close> the
  promises resolved.
\<close>

record tick_state =
  callbacks :: "wrapper list"
  pending :: bool
  useMacroTask :: bool
  hasPromise :: bool
  timers :: "timer list"
  ran :: "nat list"
  resolved :: "val list"
  tick_reported :: sink

definition nextTick :: "tick_state \<Rightarrow> tick_cb option \<Rightarrow> val \<Rightarrow> tick_state" where
  "nextTick st c ctx =
     (let st1 = st\<lparr>callbacks := callbacks st @
                     [\<lparr>w_cb = c, w_ctx = ctx, w_resolve = (c = None \<and> hasPromise st)\<rparr>]\<rparr>
      in if \<not> pending st1
         then st1\<lparr>pending := True,
                  timers := timers st1 @ [if useMacroTask st1 then MacroTask else MicroTask]\<rparr>
         else st1)"

text \<open>\<open>cb.call(ctx)\<close>: the state after it, and the error it throws, if any.\<close>

fun run_steps :: "tick_step list \<Rightarrow> tick_state \<Rightarrow> tick_state \<times> err option" where
  "run_steps [] st = (st, None)"
| "run_steps (Throw e # rest) st = (st, Some e)"
| "run_steps (CallNextTick c ctx # rest) st = run_steps rest (nextTick st c ctx)"

fun call_cb :: "tick_cb \<Rightarrow> tick_state \<Rightarrow> tick_state \<times> err option" where
  "call_cb (TickCb l steps) st = run_steps steps (st\<lparr>ran := ran st @ [l]\<rparr>)"

text \<open>One call of a pushed closure; the second component is the error that escapes it.\<close>

definition invoke :: "wrapper \<Rightarrow> tick_state \<Rightarrow> tick_state \<times> err option" where
  "invoke wr st =
     (case w_cb wr of
        Some c \<Rightarrow>
          (case call_cb c st of
             (st1, None) \<Rightarrow> (st1, None)
           | (st1, Some e) \<Rightarrow>
               (st1\<lparr>tick_reported := handleError (tick_reported st1) e (w_ctx wr) NextTickInfo\<rparr>, None))
      | None \<Rightarrow>
          if w_resolve wr then (st\<lparr>resolved := resolved st @ [w_ctx wr]\<rparr>, None) else (st, None))"

text \<open>The loop over \<open>copies\<close>: an error that escapes a call ends it.\<close>

fun invoke_all :: "wrapper list \<Rightarrow> tick_state \<Rightarrow> tick_state \<times> err option" where
  "invoke_all [] st = (st, None)"
| "invoke_all (wr # wrs) st =
     (case invoke wr st of
        (st1, None) \<Rightarrow> invoke_all wrs st1
      | (st1, Some e) \<Rightarrow> (st1, Some e))"

definition flushCallbacks :: "tick_state \<Rightarrow> tick_state \<times> err option" where
  "flushCallbacks st =
     (let st1 = st\<lparr>pending := False\<rparr>;
          copies = callbacks st1;
          st2 = st1\<lparr>callbacks := []\<rparr>
      in invoke_all copies st2)"

text \<open>The calls of \<open>nextTick\<close> that a callback makes before it returns or throws.\<close>

fun scheduled_by :: "tick_step list \<Rightarrow> (tick_cb option \<times> val) list" where
  "scheduled_by [] = []"
| "scheduled_by (Throw e # rest) = []"
| "scheduled_by (CallNextTick c ctx # rest) = (c, ctx) # scheduled_by rest"

fun thrown_by :: "tick_step list \<Rightarrow> err option" where
  "thrown_by [] = None"
| "thrown_by (Throw e # rest) = Some e"
| "thrown_by (CallNextTick c ctx # rest) = thrown_by rest"

definition steps_of :: "wrapper \<Rightarrow> tick_step list" where
  "steps_of wr = (case w_cb wr of Some (TickCb l steps) \<Rightarrow> steps | None \<Rightarrow> [])"

definition label_of :: "wrapper \<Rightarrow> nat list" where
  "label_of wr = (case w_cb wr of Some (TickCb l steps) \<Rightarrow> [l] | None \<Rightarrow> [])"

definition wrap :: "bool \<Rightarrow> tick_cb option \<times> val \<Rightarrow> wrapper" where
  "wrap promise p = \<lparr>w_cb = fst p, w_ctx = snd p, w_resolve = (fst p = None \<and> promise)\<rparr>"

text \<open>The timer that a call of \<open>nextTick\<close> uses when no flush is pending.\<close>

definition timer_of :: "tick_state \<Rightarrow> timer" where
  "timer_of st = (if useMacroTask st then MacroTask else MicroTask)"

text \<open>What a batch of closures schedules and reports while it is drained.\<close>

definition nested :: "wrapper list \<Rightarrow> (tick_cb option \<times> val) list" where
  "nested wrs = concat (map (\<lambda>wr. scheduled_by (steps_of wr)) wrs)"

definition errors_of :: "wrapper list \<Rightarrow> sink" where
  "errors_of wrs =
     concat (map (\<lambda>wr. case thrown_by (steps_of wr) of
                          Some e \<Rightarrow> [(e, w_ctx wr, NextTickInfo)] | None \<Rightarrow> []) wrs)"

section \<open>Deep traversal\<close>

text \<open>
  The objects that \<open>_traverse\<close> walks: \<open>ob\<close> is \<open>val.__ob__.dep.id\<close> when \<open>val.__ob__\<close>
  exists, \<open>elems\<close> are the values \<open>val[i]\<close> of an array or \<open>val[keys[i]]\<close> of an object, in
  index order. A heap is the list of its objects, and a reference is an index into it
  (a reference beyond the heap stands for no object).
\<close>

record obj =
  isArray :: bool
  isFrozen :: bool
  isVNode :: bool
  ob :: "did option"
  elems :: "val list"

type_synonym heap = "obj list"

text \<open>
  The loops \<open>while (i--) _traverse(val[i], seen)\<close>: the recursive call \<open>f\<close> on each
  element in turn, each call seeing what the calls before it added to \<open>seen\<close>; \<open>None\<close>
  when a call does not return.
\<close>

primrec traverse_each ::
  "(val \<Rightarrow> did set \<Rightarrow> did set option) \<Rightarrow> val list \<Rightarrow> did set \<Rightarrow> did set option" where
  "traverse_each f [] seen = Some seen"
| "traverse_each f (c # cs) seen =
     (case f c seen of None \<Rightarrow> None | Some seen' \<Rightarrow> traverse_each f cs seen')"

text \<open>
  \<open>_traverse(val, seen)\<close> with the depth of recursion bounded by the first argument:
  \<open>None\<close> when that depth is not enough, else the set \<open>seen\<close> after the call. Both loops
  run from the last element to the first.
\<close>

fun traverse_fuel :: "nat \<Rightarrow> heap \<Rightarrow> val \<Rightarrow> did set \<Rightarrow> did set option" where
  "traverse_fuel 0 h v seen = None"
| "traverse_fuel (Suc n) h v seen =
     (case v of
        Ref r \<Rightarrow>
          (if r < length h then
             (let x = h ! r in
              if isFrozen x \<or> isVNode x then Some seen
              else (case ob x of
                      Some depId \<Rightarrow>
                        if depId \<in> seen then Some seen
                        else traverse_each (traverse_fuel n h) (rev (elems x)) (insert depId seen)
                    | None \<Rightarrow> traverse_each (traverse_fuel n h) (rev (elems x)) seen))
           else Some seen)
      | _ \<Rightarrow> Some seen)"

text \<open>\<open>traverse(val)\<close>: the module's set \<open>seenObjects\<close> before and after.\<close>

definition traverse :: "nat \<Rightarrow> heap \<Rightarrow> val \<Rightarrow> did set \<Rightarrow> did set option" where
  "traverse n h v seenObjects =
     (case traverse_fuel n h v seenObjects of None \<Rightarrow> None | Some s \<Rightarrow> Some {})"

text \<open>
  The references from an object that is neither frozen, nor a virtual node, nor
  instrumented, to the objects it holds.
\<close>

definition plain :: "heap \<Rightarrow> ref \<Rightarrow> bool" where
  "plain h r = (r < length h \<and> \<not> isFrozen (h ! r) \<and> \<not> isVNode (h ! r) \<and> ob (h ! r) = None)"

definition plain_edges :: "heap \<Rightarrow> (ref \<times> ref) set" where
  "plain_edges h = {(c, r). plain h r \<and> c < length h \<and> Ref c \<in> set (elems (h ! r))}"

section \<open>Example states\<close>

definition fresh_watcher :: watcher where
  "fresh_watcher =
     \<lparr>vm = 0, expression = [], cb = (\<lambda>v old. None), deep = False, user = False, lazy = False,
      sync = False, dirty = False, active = True, deps = [], newDeps = [], depIds = {},
      newDepIds = {}, getter = noop, wvalue = Undefined\<rparr>"

definition empty_state :: state where
  "empty_state =
     \<lparr>watchers = (\<lambda>w. fresh_watcher), subs = (\<lambda>d. []), target = None, targetStack = [],
      vms = (\<lambda>r. \<lparr>vm_watcher = None, vm_watchers = [], vm_isBeingDestroyed = False\<rparr>),
      uid = 0, reported = [], queue = [], evaluated = [], fired = []\<rparr>"

definition with_watcher :: "wid \<Rightarrow> watcher \<Rightarrow> state \<Rightarrow> state" where
  "with_watcher w W st = st\<lparr>watchers := (watchers st)(w := W)\<rparr>"

definition plain_world :: world where
  "plain_world = \<lparr>readProp = (\<lambda>v k. ([], Undefined)), trav = (\<lambda>v. []), production = False\<rparr>"

definition throwing :: getter where
  "throwing env v = \<lparr>reads = [1, 2, 1], outcome = Inl (UserError 7)\<rparr>"

definition returning :: "did list \<Rightarrow> val \<Rightarrow> getter" where
  "returning ds x env v = \<lparr>reads = ds, outcome = Inr x\<rparr>"

definition subscribed_state :: state where
  "subscribed_state =
     with_watcher 1 (fresh_watcher\<lparr>deps := [1, 2], depIds := {1, 2}, getter := returning [2, 3, 2] (Num 5)\<rparr>)
       (empty_state\<lparr>subs := (\<lambda>d. [])(1 := [1], 2 := [1])\<rparr>)"

definition lazy_state :: state where
  "lazy_state =
     with_watcher 1 (fresh_watcher\<lparr>lazy := True, dirty := True, getter := returning [3] (Num 5)\<rparr>)
       empty_state"

definition tick_idle :: tick_state where
  "tick_idle =
     \<lparr>callbacks = [], pending = False, useMacroTask = False, hasPromise = True, timers = [],
      ran = [], resolved = [], tick_reported = []\<rparr>"

definition first_cb :: tick_cb where
  "first_cb = TickCb 1 [CallNextTick (Some (TickCb 3 [])) Undefined, Throw (UserError 9),
                        CallNextTick (Some (TickCb 4 [])) Undefined]"

definition two_pending :: tick_state where
  "two_pending = nextTick (nextTick tick_idle (Some first_cb) (Str ''a'')) (Some (TickCb 2 [])) Null"

definition failing_cb_state :: state where
  "failing_cb_state =
     with_watcher 1 (fresh_watcher\<lparr>user := True, cb := (\<lambda>v old. Some (UserError 3)),
                                   getter := returning [] (Num 1)\<rparr>) empty_state"

definition self_ref :: heap where
  "self_ref = [\<lparr>isArray = False, isFrozen = False, isVNode = False, ob = None, elems = [Ref 0]\<rparr>]"

definition mixed_heap :: heap where
  "mixed_heap =
     [\<lparr>isArray = False, isFrozen = False, isVNode = False, ob = Some 10, elems = [Ref 1, Num 3]\<rparr>,
      \<lparr>isArray = True, isFrozen = False, isVNode = False, ob = None, elems = [Ref 0, Ref 2]\<rparr>,
      \<lparr>isArray = False, isFrozen = True, isVNode = False, ob = None, elems = [Ref 2]\<rparr>]"

section \<open>What each call leaves unchanged\<close>

lemma addSub_frame [simp]:
  "watchers (addSub st d w) = watchers st" "target (addSub st d w) = target st"
  "targetStack (addSub st d w) = targetStack st" "vms (addSub st d w) = vms st"
  "uid (addSub st d w) = uid st" "reported (addSub st d w) = reported st"
  "fired (addSub st d w) = fired st" "queue (addSub st d w) = queue st"
  "evaluated (addSub st d w) = evaluated st"
  by (simp_all add: addSub_def)

lemma removeSub_frame [simp]:
  "watchers (removeSub st d w) = watchers st" "target (removeSub st d w) = target st"
  "targetStack (removeSub st d w) = targetStack st" "vms (removeSub st d w) = vms st"
  "uid (removeSub st d w) = uid st" "reported (removeSub st d w) = reported st"
  "fired (removeSub st d w) = fired st" "queue (removeSub st d w) = queue st"
  "evaluated (removeSub st d w) = evaluated st"
  by (simp_all add: removeSub_def)

lemma addDep_frame [simp]:
  "target (addDep st w d) = target st"
  "targetStack (addDep st w d) = targetStack st" "vms (addDep st w d) = vms st"
  "uid (addDep st w d) = uid st" "reported (addDep st w d) = reported st"
  "fired (addDep st w d) = fired st" "queue (addDep st w d) = queue st"
  "evaluated (addDep st w d) = evaluated st"
  by (simp_all add: addDep_def Let_def)

lemma dep_depend_frame [simp]:
  "target (dep_depend st d) = target st"
  "targetStack (dep_depend st d) = targetStack st" "vms (dep_depend st d) = vms st"
  "uid (dep_depend st d) = uid st" "reported (dep_depend st d) = reported st"
  "fired (dep_depend st d) = fired st" "queue (dep_depend st d) = queue st"
  "evaluated (dep_depend st d) = evaluated st"
  by (simp_all add: dep_depend_def split: option.splits)

lemma depend_all_frame [simp]:
  "target (depend_all ds st) = target st"
  "targetStack (depend_all ds st) = targetStack st" "vms (depend_all ds st) = vms st"
  "uid (depend_all ds st) = uid st" "reported (depend_all ds st) = reported st"
  "fired (depend_all ds st) = fired st" "queue (depend_all ds st) = queue st"
  "evaluated (depend_all ds st) = evaluated st"
  unfolding depend_all_def by (induction ds arbitrary: st; simp)+

lemma remove_loop_frame [simp]:
  "watchers (fold (\<lambda>d s. if P d then removeSub s d w else s) ds st) = watchers st"
  "target (fold (\<lambda>d s. if P d then removeSub s d w else s) ds st) = target st"
  "targetStack (fold (\<lambda>d s. if P d then removeSub s d w else s) ds st) = targetStack st"
  "vms (fold (\<lambda>d s. if P d then removeSub s d w else s) ds st) = vms st"
  "uid (fold (\<lambda>d s. if P d then removeSub s d w else s) ds st) = uid st"
  "reported (fold (\<lambda>d s. if P d then removeSub s d w else s) ds st) = reported st"
  "fired (fold (\<lambda>d s. if P d then removeSub s d w else s) ds st) = fired st"
  "queue (fold (\<lambda>d s. if P d then removeSub s d w else s) ds st) = queue st"
  "evaluated (fold (\<lambda>d s. if P d then removeSub s d w else s) ds st) = evaluated st"
  by (induction ds arbitrary: st; simp)+

lemma cleanupDeps_frame [simp]:
  "target (cleanupDeps st w) = target st"
  "targetStack (cleanupDeps st w) = targetStack st" "vms (cleanupDeps st w) = vms st"
  "uid (cleanupDeps st w) = uid st" "reported (cleanupDeps st w) = reported st"
  "fired (cleanupDeps st w) = fired st" "queue (cleanupDeps st w) = queue st"
  "evaluated (cleanupDeps st w) = evaluated st"
  by (simp_all add: cleanupDeps_def Let_def)

lemma addDep_config [simp]: "config (watchers (addDep st w d) w') = config (watchers st w')"
  by (simp add: addDep_def Let_def config_def)

lemma dep_depend_config [simp]: "config (watchers (dep_depend st d) w') = config (watchers st w')"
  by (simp add: dep_depend_def split: option.splits)

lemma depend_all_config [simp]: "config (watchers (depend_all ds st) w') = config (watchers st w')"
  unfolding depend_all_def by (induction ds arbitrary: st) simp_all

lemma cleanupDeps_config [simp]: "config (watchers (cleanupDeps st w) w') = config (watchers st w')"
  by (simp add: cleanupDeps_def Let_def config_def)

lemma pushTarget_frame [simp]:
  "watchers (pushTarget st t) = watchers st" "subs (pushTarget st t) = subs st"
  "target (pushTarget st t) = t" "vms (pushTarget st t) = vms st"
  "uid (pushTarget st t) = uid st" "reported (pushTarget st t) = reported st"
  "fired (pushTarget st t) = fired st" "queue (pushTarget st t) = queue st"
  "evaluated (pushTarget st t) = evaluated st"
  by (simp_all add: pushTarget_def)

lemma popTarget_frame [simp]:
  "watchers (popTarget st) = watchers st" "subs (popTarget st) = subs st"
  "vms (popTarget st) = vms st"
  "uid (popTarget st) = uid st" "reported (popTarget st) = reported st"
  "fired (popTarget st) = fired st" "queue (popTarget st) = queue st"
  "evaluated (popTarget st) = evaluated st"
  by (simp_all add: popTarget_def split: list.splits)

lemma get_target:
  "target (fst (get env st w)) =
     (case target st of Some t \<Rightarrow> Some t
      | None \<Rightarrow> (case targetStack st of [] \<Rightarrow> None | x # xs \<Rightarrow> Some x))"
  by (cases "target st"; cases "targetStack st")
     (simp_all add: get_def Let_def popTarget_def pushTarget_def split: sum.splits)

lemma get_targetStack:
  "targetStack (fst (get env st w)) =
     (case target st of Some t \<Rightarrow> targetStack st | None \<Rightarrow> tl (targetStack st))"
  by (cases "target st"; cases "targetStack st")
     (simp_all add: get_def Let_def popTarget_def pushTarget_def split: sum.splits)

lemma get_config [simp]: "config (watchers (fst (get env st w)) w') = config (watchers st w')"
  by (simp add: get_def Let_def split: sum.splits)

lemma dep_depend_reported_update [simp]:
  "dep_depend (st\<lparr>reported := r\<rparr>) d = (dep_depend st d)\<lparr>reported := r\<rparr>"
  by (simp add: dep_depend_def addDep_def addSub_def Let_def split: option.splits)

lemma dep_depend_evaluated_update [simp]:
  "dep_depend (st\<lparr>evaluated := r\<rparr>) d = (dep_depend st d)\<lparr>evaluated := r\<rparr>"
  by (simp add: dep_depend_def addDep_def addSub_def Let_def split: option.splits)

lemma depend_all_reported_update [simp]:
  "depend_all ds (st\<lparr>reported := r\<rparr>) = (depend_all ds st)\<lparr>reported := r\<rparr>"
  unfolding depend_all_def by (induction ds arbitrary: st) simp_all

lemma depend_all_evaluated_update [simp]:
  "depend_all ds (st\<lparr>evaluated := r\<rparr>) = (depend_all ds st)\<lparr>evaluated := r\<rparr>"
  unfolding depend_all_def by (induction ds arbitrary: st) simp_all

lemma get_frame [simp]:
  "fired (fst (get env st w)) = fired st" "queue (fst (get env st w)) = queue st"
  "vms (fst (get env st w)) = vms st" "uid (fst (get env st w)) = uid st"
  "evaluated (fst (get env st w)) = evaluated st @ [w]"
  by (simp_all add: get_def Let_def split: sum.splits)

lemma get_result:
  "snd (get env st w) =
     (case outcome (getter (watchers st w) env (Ref (vm (watchers st w)))) of
        Inr v \<Rightarrow> Inr v
      | Inl e \<Rightarrow> if user (watchers st w) then Inr Undefined else Inl e)"
  by (simp add: get_def Let_def split: sum.splits)

lemma get_reported:
  "reported (fst (get env st w)) =
     (case outcome (getter (watchers st w) env (Ref (vm (watchers st w)))) of
        Inr v \<Rightarrow> reported st
      | Inl e \<Rightarrow> if user (watchers st w)
                 then handleError (reported st) e (Ref (vm (watchers st w)))
                        (GetterFor (expression (watchers st w)))
                 else reported st)"
  by (simp add: get_def Let_def split: sum.splits)

lemma config_eqD:
  "config A = config B \<Longrightarrow>
     vm A = vm B \<and> expression A = expression B \<and> cb A = cb B \<and> deep A = deep B \<and>
     user A = user B \<and> lazy A = lazy B \<and> sync A = sync B \<and> dirty A = dirty B \<and>
     active A = active B \<and> getter A = getter B \<and> wvalue A = wvalue B"
  by (simp add: config_def)

lemmas get_fields = get_config [THEN config_eqD]

section \<open>The active-computation pointer across get\<close>

text \<open>
  \<open>get\<close> leaves \<open>Dep.target\<close> and the stack as they were when a watcher was active
  before the call, or when the stack was empty.
\<close>

lemma get_restores_target:
  "target st \<noteq> None \<or> targetStack st = [] \<Longrightarrow>
     target (fst (get env st w)) = target st \<and> targetStack (fst (get env st w)) = targetStack st"
  by (auto simp: get_target get_targetStack split: option.splits list.splits)

text \<open>
  C3: a call of \<open>Watcher.get\<close> should restore \<open>Dep.target\<close> to its value from before the
  call, in every state of the pointer. In the state that \<open>getData\<close> creates with
  \<open>pushTarget()\<close> while watcher 1 is being evaluated (no target, watcher 1 on the stack),
  \<open>get\<close> of watcher 2 does not push, and its \<open>popTarget\<close> leaves watcher 1 as the target;
  the \<open>popTarget\<close> of \<open>getData\<close> then leaves no target at all.
\<close>

theorem get_inside_disabled_collection:
  "target (pushTarget (empty_state\<lparr>target := Some 1\<rparr>) None) = None \<and>
   target (fst (get env (pushTarget (empty_state\<lparr>target := Some 1\<rparr>) None) 2)) = Some 1 \<and>
   target (popTarget (fst (get env (pushTarget (empty_state\<lparr>target := Some 1\<rparr>) None) 2))) = None"
  by (simp add: get_target get_targetStack pushTarget_def popTarget_def empty_state_def)

section \<open>Errors of the getter\<close>

text \<open>
  C8: when the getter throws during \<open>get\<close>, a user-defined watcher passes the error to
  the error sink and \<open>get\<close> returns \<open>undefined\<close> without rethrowing; any other watcher
  rethrows the error to the caller of \<open>get\<close> and reports nothing.
\<close>

theorem get_getter_throws:
  assumes "outcome (getter (watchers st w) env (Ref (vm (watchers st w)))) = Inl e"
  shows "snd (get env st w) = (if user (watchers st w) then Inr Undefined else Inl e) \<and>
         reported (fst (get env st w)) =
           (if user (watchers st w)
            then reported st @ [(e, Ref (vm (watchers st w)), GetterFor (expression (watchers st w)))]
            else reported st)"
  using assms by (simp add: get_result get_reported handleError_def)

theorem get_getter_throws_witness:
  "snd (get plain_world (with_watcher 1 (fresh_watcher\<lparr>user := True, getter := throwing\<rparr>) empty_state) 1)
     = Inr Undefined \<and>
   reported (fst (get plain_world (with_watcher 1 (fresh_watcher\<lparr>user := True, getter := throwing\<rparr>) empty_state) 1))
     = [(UserError 7, Ref 0, GetterFor [])]"
  using get_getter_throws [of "with_watcher 1 (fresh_watcher\<lparr>user := True, getter := throwing\<rparr>) empty_state"
      1 plain_world "UserError 7"]
  by (simp add: with_watcher_def fresh_watcher_def empty_state_def throwing_def)

section \<open>When run fires the callback\<close>



section \<open>Dependency collection in closed form\<close>

lemma collect_set: "set (collect ids ds) = set ds - ids"
  by (induction ds arbitrary: ids) auto

lemma collect_distinct: "distinct (collect ids ds)"
  by (induction ds arbitrary: ids) (auto simp: collect_set)

lemma remove1_pow_subset: "set ((remove1 w ^^ n) xs) \<subseteq> set xs"
proof (induction n)
  case (Suc n)
  have "set (remove1 w ((remove1 w ^^ n) xs)) \<subseteq> set ((remove1 w ^^ n) xs)"
    by (rule set_remove1_subset)
  with Suc show ?case by auto
qed simp

lemma remove1_pow_distinct: "distinct xs \<Longrightarrow> distinct ((remove1 w ^^ n) xs)"
  by (induction n) simp_all

lemma remove1_pow_gone: "distinct xs \<Longrightarrow> 0 < n \<Longrightarrow> w \<notin> set ((remove1 w ^^ n) xs)"
proof (induction n)
  case (Suc n)
  have "distinct ((remove1 w ^^ n) xs)" using Suc.prems(1) by (rule remove1_pow_distinct)
  then show ?case by simp
qed simp

lemma remove_loop_subs:
  "subs (fold (\<lambda>d s. if P d then removeSub s d w else s) ds st) d =
     (if P d then (remove1 w ^^ count_list ds d) (subs st d) else subs st d)"
proof (induction ds arbitrary: st)
  case (Cons a ds)
  show ?case
    by (simp add: Cons.IH removeSub_def remove_arr_def funpow_swap1)
qed simp

lemma depend_all_append: "depend_all (xs @ ys) st = depend_all ys (depend_all xs st)"
  by (simp add: depend_all_def)

lemma depend_all_Cons: "depend_all (d # ds) st = depend_all ds (dep_depend st d)"
  by (simp add: depend_all_def)

lemma depend_all_Nil: "depend_all [] st = st"
  by (simp add: depend_all_def)

lemma depend_all_watchers:
  "target st = Some w \<Longrightarrow>
   watchers (depend_all ds st) =
     (watchers st)(w := (watchers st w)
        \<lparr>newDeps := newDeps (watchers st w) @ collect (newDepIds (watchers st w)) ds,
         newDepIds := newDepIds (watchers st w) \<union> set ds\<rparr>)"
proof (induction ds arbitrary: st)
  case Nil
  then show ?case by (simp add: depend_all_Nil)
next
  case (Cons a ds)
  have t: "target (dep_depend st a) = Some w" using Cons.prems by simp
  show ?case
    unfolding depend_all_Cons Cons.IH [OF t]
    using Cons.prems
    by (auto simp: dep_depend_def addDep_def Let_def insert_absorb)
qed

lemma depend_all_subs:
  "target st = Some w \<Longrightarrow>
   subs (depend_all ds st) d =
     subs st d @ (if d \<in> set ds \<and> d \<notin> newDepIds (watchers st w) \<and> d \<notin> depIds (watchers st w)
                  then [w] else [])"
proof (induction ds arbitrary: st)
  case Nil
  then show ?case by (simp add: depend_all_Nil)
next
  case (Cons a ds)
  have t: "target (dep_depend st a) = Some w" using Cons.prems by simp
  show ?case
    unfolding depend_all_Cons Cons.IH [OF t]
    using Cons.prems
    by (auto simp: dep_depend_def addDep_def addSub_def Let_def)
qed

lemma cleanupDeps_watchers:
  "watchers (cleanupDeps st w) =
     (watchers st)(w := (watchers st w)\<lparr>depIds := newDepIds (watchers st w), newDepIds := {},
                                        deps := newDeps (watchers st w), newDeps := []\<rparr>)"
  by (simp add: cleanupDeps_def Let_def)

lemma cleanupDeps_subs:
  "subs (cleanupDeps st w) d =
     (if d \<notin> newDepIds (watchers st w)
      then (remove1 w ^^ count_list (deps (watchers st w)) d) (subs st d) else subs st d)"
  by (simp add: cleanupDeps_def Let_def remove_loop_subs)

lemma get_watchers:
  "watchers (fst (get env st w)) =
     watchers (cleanupDeps (depend_all (pass_reads env st w) (pushTarget st (Some w))) w)"
  by (simp add: get_def pass_reads_def Let_def depend_all_append depend_all_Nil cleanupDeps_watchers
        split: sum.splits)

lemma get_subs:
  "subs (fst (get env st w)) =
     subs (cleanupDeps (depend_all (pass_reads env st w) (pushTarget st (Some w))) w)"
  by (rule ext)
     (simp add: get_def pass_reads_def Let_def depend_all_append depend_all_Nil cleanupDeps_subs
        cleanupDeps_watchers split: sum.splits)

lemma get_this:
  "watchers (fst (get env st w)) w =
     (watchers st w)
       \<lparr>newDeps := [], newDepIds := {},
        depIds := newDepIds (watchers st w) \<union> set (pass_reads env st w),
        deps := newDeps (watchers st w) @ collect (newDepIds (watchers st w)) (pass_reads env st w)\<rparr>"
  by (simp add: get_watchers cleanupDeps_watchers depend_all_watchers)

lemma get_subs_of:
  "subs (fst (get env st w)) d =
     (let xs = subs st d @
                 (if d \<in> set (pass_reads env st w) \<and> d \<notin> newDepIds (watchers st w) \<and>
                     d \<notin> depIds (watchers st w) then [w] else [])
      in if d \<notin> newDepIds (watchers st w) \<union> set (pass_reads env st w)
         then (remove1 w ^^ count_list (deps (watchers st w)) d) xs else xs)"
  by (simp add: get_subs cleanupDeps_subs cleanupDeps_watchers depend_all_watchers
        depend_all_subs Let_def)

section \<open>The dependencies after a pass\<close>



section \<open>The subscription invariant\<close>

lemma consistent_links: "links st = links st' \<Longrightarrow> consistent st = consistent st'"
  by (simp add: links_def consistent_def fun_eq_iff)

lemma consistentI:
  assumes "\<And>d. distinct (subs st d)"
    and "\<And>w d. w \<in> set (subs st d) \<Longrightarrow> d \<in> depIds (watchers st w) \<union> newDepIds (watchers st w)"
    and "\<And>w. set (deps (watchers st w)) = depIds (watchers st w)"
    and "\<And>w. set (newDeps (watchers st w)) = newDepIds (watchers st w)"
  shows "consistent st"
  using assms unfolding consistent_def by blast

lemma consistentD:
  assumes "consistent st"
  shows "distinct (subs st d)"
    and "w \<in> set (subs st d) \<Longrightarrow> d \<in> depIds (watchers st w) \<union> newDepIds (watchers st w)"
    and "set (deps (watchers st w)) = depIds (watchers st w)"
    and "set (newDeps (watchers st w)) = newDepIds (watchers st w)"
  using assms unfolding consistent_def by blast+

lemma addDep_consistent: "consistent st \<Longrightarrow> consistent (addDep st w d)"
proof (rule consistentI, goal_cases)
  case (1 d')
  then show ?case
    using consistentD(1,2) [of st]
    by (auto simp: addDep_def addSub_def Let_def)
next
  case (2 w' d')
  then show ?case
    using consistentD(2) [of st w' d']
    by (auto simp: addDep_def addSub_def Let_def split: if_splits)
next
  case (3 w')
  then show ?case
    using consistentD(3) [of st w'] by (auto simp: addDep_def addSub_def Let_def)
next
  case (4 w')
  then show ?case
    using consistentD(4) [of st w'] by (auto simp: addDep_def addSub_def Let_def)
qed

lemma removeSub_consistent: "consistent st \<Longrightarrow> consistent (removeSub st d w)"
proof (rule consistentI, goal_cases)
  case (1 d')
  then show ?case using consistentD(1) [of st] by (simp add: removeSub_def remove_arr_def)
next
  case (2 w' d')
  then show ?case
    using consistentD(2) [of st w' d'] set_remove1_subset [of w "subs st d"]
    by (auto simp: removeSub_def remove_arr_def split: if_splits)
next
  case (3 w')
  then show ?case using consistentD(3) [of st w'] by simp
next
  case (4 w')
  then show ?case using consistentD(4) [of st w'] by simp
qed

lemma pushTarget_consistent: "consistent st \<Longrightarrow> consistent (pushTarget st t)"
  by (simp add: consistent_def)

lemma popTarget_consistent: "consistent st \<Longrightarrow> consistent (popTarget st)"
  by (simp add: consistent_def)

lemma dep_depend_consistent: "consistent st \<Longrightarrow> consistent (dep_depend st d)"
  by (simp add: dep_depend_def addDep_consistent split: option.splits)

lemma depend_all_consistent: "consistent st \<Longrightarrow> consistent (depend_all ds st)"
  unfolding depend_all_def
  by (induction ds arbitrary: st) (simp_all add: dep_depend_consistent)

lemma cleanupDeps_consistent: "consistent st \<Longrightarrow> consistent (cleanupDeps st w)"
proof (rule consistentI, goal_cases)
  case (1 d)
  then show ?case
    using consistentD(1) [of st d] by (simp add: cleanupDeps_subs remove1_pow_distinct)
next
  case (2 w' d)
  have sub: "w' \<in> set (subs st d)"
    using 2(2) remove1_pow_subset [where w = w and xs = "subs st d"]
    by (auto simp: cleanupDeps_subs split: if_splits)
  show ?case
  proof (cases "w' = w")
    case False
    then show ?thesis
      using consistentD(2) [OF 2(1) sub] by (simp add: cleanupDeps_watchers)
  next
    case True
    have "d \<in> newDepIds (watchers st w)"
    proof (rule ccontr)
      assume n: "d \<notin> newDepIds (watchers st w)"
      then have "d \<in> set (deps (watchers st w))"
        using consistentD(2) [OF 2(1) sub] consistentD(3) [OF 2(1), of w] True by simp
      then have "0 < count_list (deps (watchers st w)) d"
        using count_list_0_iff [of "deps (watchers st w)" d] by simp
      then have "w \<notin> set (subs (cleanupDeps st w) d)"
        using n consistentD(1) [OF 2(1), of d] by (simp add: cleanupDeps_subs remove1_pow_gone)
      then show False using 2(2) True by simp
    qed
    then show ?thesis using True by (simp add: cleanupDeps_watchers)
  qed
next
  case (3 w')
  then show ?case
    using consistentD(3,4) [of st w'] by (auto simp: cleanupDeps_watchers)
next
  case (4 w')
  then show ?case
    using consistentD(4) [of st w'] by (auto simp: cleanupDeps_watchers)
qed

lemma get_consistent: "consistent st \<Longrightarrow> consistent (fst (get env st w))"
proof -
  assume c: "consistent st"
  have "links (fst (get env st w)) =
        links (cleanupDeps (depend_all (pass_reads env st w) (pushTarget st (Some w))) w)"
    by (simp add: links_def get_watchers get_subs)
  then show ?thesis
    using c consistent_links
      cleanupDeps_consistent [OF depend_all_consistent [OF pushTarget_consistent]]
    by blast
qed

lemmas remove_all_frame = remove_loop_frame [where P = "\<lambda>d. True", simplified]
lemmas remove_all_subs = remove_loop_subs [where P = "\<lambda>d. True", simplified]

lemma teardown_frame [simp]:
  "target (teardown st w) = target st" "targetStack (teardown st w) = targetStack st"
  "uid (teardown st w) = uid st" "reported (teardown st w) = reported st"
  "fired (teardown st w) = fired st" "queue (teardown st w) = queue st"
  "evaluated (teardown st w) = evaluated st"
  by (simp_all add: teardown_def Let_def remove_all_frame)

lemma teardown_watchers:
  "watchers (teardown st w) =
     (if active (watchers st w) then (watchers st)(w := (watchers st w)\<lparr>active := False\<rparr>)
      else watchers st)"
  by (simp add: teardown_def Let_def remove_all_frame)

lemma teardown_subs:
  "subs (teardown st w) d =
     (if active (watchers st w)
      then (remove1 w ^^ count_list (deps (watchers st w)) d) (subs st d) else subs st d)"
  by (simp add: teardown_def Let_def remove_all_subs)

lemma teardown_inactive: "\<not> active (watchers st w) \<Longrightarrow> teardown st w = st"
  by (simp add: teardown_def)

lemma run_inactive: "\<not> active (watchers st w) \<Longrightarrow> run env st w = (st, None)"
  by (simp add: run_def)

lemma teardown_consistent: "consistent st \<Longrightarrow> consistent (teardown st w)"
proof (rule consistentI, goal_cases)
  case (1 d)
  then show ?case
    using consistentD(1) [of st d] by (simp add: teardown_subs remove1_pow_distinct)
next
  case (2 w' d)
  have "w' \<in> set (subs st d)"
    using 2(2) remove1_pow_subset [where w = w and xs = "subs st d"]
    by (auto simp: teardown_subs split: if_splits)
  then show ?case
    using consistentD(2) [OF 2(1), of w' d] by (auto simp: teardown_watchers)
next
  case (3 w')
  then show ?case using consistentD(3) [of st w'] by (auto simp: teardown_watchers)
next
  case (4 w')
  then show ?case using consistentD(4) [of st w'] by (auto simp: teardown_watchers)
qed

lemma run_links:
  "links (fst (run env st w)) =
     (if active (watchers st w) then links (fst (get env st w)) else links st)"
  by (cases "get env st w")
     (auto simp: run_def links_def Let_def fun_eq_iff split: sum.splits option.splits)

lemma evaluate_links: "links (fst (evaluate env st w)) = links (fst (get env st w))"
  by (cases "get env st w")
     (auto simp: evaluate_def links_def fun_eq_iff split: sum.splits)

lemma run_consistent: "consistent st \<Longrightarrow> consistent (fst (run env st w))"
proof (cases "active (watchers st w)")
  case True
  assume c: "consistent st"
  have "links (fst (run env st w)) = links (fst (get env st w))"
    using True by (simp add: run_links)
  then show ?thesis using consistent_links get_consistent [OF c] by blast
next
  case False
  assume "consistent st"
  then show ?thesis using False by (simp add: run_inactive)
qed

lemma evaluate_consistent: "consistent st \<Longrightarrow> consistent (fst (evaluate env st w))"
  using consistent_links [OF evaluate_links] get_consistent by blast

lemma update_consistent: "consistent st \<Longrightarrow> consistent (fst (update env st w))"
proof -
  assume c: "consistent st"
  have l: "consistent (st\<lparr>watchers := (watchers st)(w := (watchers st w)\<lparr>dirty := True\<rparr>)\<rparr>)"
    using c by (simp add: consistent_def)
  have q: "consistent (queueWatcher st w)"
    using c by (simp add: consistent_def queueWatcher_def)
  show ?thesis
    using l q run_consistent [OF c] by (simp add: update_def)
qed

lemma watcher_depend_consistent: "consistent st \<Longrightarrow> consistent (watcher_depend st w)"
  by (simp add: watcher_depend_def depend_all_consistent)

lemma apply_op_consistent: "consistent st \<Longrightarrow> consistent (apply_op x st)"
  by (cases x)
     (simp_all add: pushTarget_consistent popTarget_consistent dep_depend_consistent
        removeSub_consistent addDep_consistent cleanupDeps_consistent watcher_depend_consistent
        get_consistent run_consistent evaluate_consistent update_consistent teardown_consistent)

lemma exec_consistent: "consistent st \<Longrightarrow> consistent (exec ops st)"
  unfolding exec_def by (induction ops arbitrary: st) (simp_all add: apply_op_consistent)

lemma unsubscribed_consistent: "consistent (unsubscribed st)"
  by (simp add: consistent_def unsubscribed_def)

section \<open>No duplicate subscriber\<close>

text \<open>
  Against C2 as stated: \<open>Dep.addSub\<close> pushes without looking. Called twice with the same
  watcher it is no no-op: it lists the watcher twice.
\<close>

theorem addSub_twice_duplicates:
  "subs (addSub (addSub empty_state 0 1) 0 1) 0 = [1, 1] \<and>
   addSub (addSub empty_state 0 1) 0 1 \<noteq> addSub empty_state 0 1 \<and>
   \<not> distinct (subs (addSub (addSub empty_state 0 1) 0 1) 0)"
proof -
  have s: "subs (addSub (addSub empty_state 0 1) 0 1) 0 = [1, 1]"
    by (simp add: addSub_def empty_state_def)
  have t: "subs (addSub empty_state 0 1) 0 = [1]"
    by (simp add: addSub_def empty_state_def)
  have "addSub (addSub empty_state 0 1) 0 1 \<noteq> addSub empty_state 0 1"
  proof
    assume "addSub (addSub empty_state 0 1) 0 1 = addSub empty_state 0 1"
    then have "subs (addSub (addSub empty_state 0 1) 0 1) 0 = subs (addSub empty_state 0 1) 0"
      by simp
    then show False unfolding s t by simp
  qed
  then show ?thesis using s by simp
qed

text \<open>
  C2 (as amended): \<open>Dep.addSub\<close> itself appends unconditionally; the duplicate check is
  in \<open>Watcher.addDep\<close>. Starting with no subscriptions, after any sequence of the calls
  \<open>pushTarget\<close>, \<open>popTarget\<close>, \<open>Dep.depend\<close>, \<open>Dep.removeSub\<close>, and the watcher's
  \<open>addDep\<close>, \<open>cleanupDeps\<close>, \<open>depend\<close>, \<open>get\<close>, \<open>run\<close>, \<open>evaluate\<close>, \<open>update\<close>
  and \<open>teardown\<close>, no Dep's \<open>subs\<close> contains the same watcher twice.
\<close>

theorem subs_never_duplicated:
  "distinct (subs (exec ops (unsubscribed st)) d)"
  using consistentD(1) [OF exec_consistent [OF unsubscribed_consistent]] .

theorem subs_never_duplicated_witness:
  "distinct (subs (exec [Get plain_world 1, DepDepend 3, PushTarget (Some 1), DepDepend 3,
                         DepDepend 4, DepDepend 3, PopTarget, Teardown 1, Get plain_world 1]
                        (unsubscribed subscribed_state)) 3)"
  using subs_never_duplicated
    [of "[Get plain_world 1, DepDepend 3, PushTarget (Some 1), DepDepend 3,
          DepDepend 4, DepDepend 3, PopTarget, Teardown 1, Get plain_world 1]" subscribed_state 3]
  by simp

section \<open>After teardown\<close>

lemma teardown_unsubscribes:
  assumes "consistent st" and "newDeps (watchers st w) = []" and "active (watchers st w)"
  shows "w \<notin> set (subs (teardown st w) d)"
proof (cases "w \<in> set (subs st d)")
  case True
  have "d \<in> set (deps (watchers st w))"
    using consistentD(2) [OF assms(1) True] consistentD(3,4) [OF assms(1), of w] assms(2)
    by auto
  then have "0 < count_list (deps (watchers st w)) d"
    using count_list_0_iff [of "deps (watchers st w)" d] by simp
  then show ?thesis
    using assms(3) consistentD(1) [OF assms(1), of d]
    by (simp add: teardown_subs remove1_pow_gone)
next
  case False
  then show ?thesis
    using remove1_pow_subset [where w = w and xs = "subs st d"]
    by (auto simp: teardown_subs)
qed

lemma react_inactive:
  assumes "\<not> active (watchers st w)"
  shows "\<not> active (watchers (react w r st) w) \<and>
         evaluated (react w r st) = evaluated st \<and> fired (react w r st) = fired st \<and>
         reported (react w r st) = reported st \<and> subs (react w r st) = subs st \<and>
         wvalue (watchers (react w r st) w) = wvalue (watchers st w)"
  using assms
  by (cases r) (simp_all add: update_def run_inactive teardown_inactive queueWatcher_def)

lemma reactions_inactive:
  assumes "\<not> active (watchers st w)"
  shows "\<not> active (watchers (fold (react w) rs st) w) \<and>
         evaluated (fold (react w) rs st) = evaluated st \<and>
         fired (fold (react w) rs st) = fired st \<and>
         reported (fold (react w) rs st) = reported st \<and>
         subs (fold (react w) rs st) = subs st \<and>
         wvalue (watchers (fold (react w) rs st) w) = wvalue (watchers st w)"
  using assms
proof (induction rs arbitrary: st)
  case Nil
  then show ?case by simp
next
  case (Cons r rs)
  from react_inactive [OF Cons.prems, of r] Cons.IH [of "react w r st"]
  show ?case by simp
qed

lemma evaluate_log: "evaluated (fst (evaluate env st w)) = evaluated st @ [w]"
  using get_frame(5) [of env st w]
  by (cases "get env st w") (auto simp: evaluate_def split: sum.splits)

lemma evaluate_subs: "subs (fst (evaluate env st w)) = subs (fst (get env st w))"
  by (cases "get env st w") (auto simp: evaluate_def split: sum.splits)




section \<open>The tick mechanism: draining a batch\<close>

lemma nextTick_fields:
  "callbacks (nextTick st c ctx) = callbacks st @ [wrap (hasPromise st) (c, ctx)]"
  "pending (nextTick st c ctx) = True"
  "timers (nextTick st c ctx) = timers st @ (if pending st then [] else [timer_of st])"
  "useMacroTask (nextTick st c ctx) = useMacroTask st"
  "hasPromise (nextTick st c ctx) = hasPromise st"
  "ran (nextTick st c ctx) = ran st"
  "resolved (nextTick st c ctx) = resolved st"
  "tick_reported (nextTick st c ctx) = tick_reported st"
  by (simp_all add: nextTick_def Let_def wrap_def timer_of_def)

lemma timer_of_nextTick [simp]: "timer_of (nextTick st c ctx) = timer_of st"
  by (simp add: timer_of_def nextTick_fields)

lemma run_steps_fields:
  "callbacks (fst (run_steps steps st)) = callbacks st @ map (wrap (hasPromise st)) (scheduled_by steps)"
  "pending (fst (run_steps steps st)) = (pending st \<or> scheduled_by steps \<noteq> [])"
  "timers (fst (run_steps steps st)) =
     timers st @ (if \<not> pending st \<and> scheduled_by steps \<noteq> [] then [timer_of st] else [])"
  "useMacroTask (fst (run_steps steps st)) = useMacroTask st"
  "hasPromise (fst (run_steps steps st)) = hasPromise st"
  "ran (fst (run_steps steps st)) = ran st"
  "resolved (fst (run_steps steps st)) = resolved st"
  "tick_reported (fst (run_steps steps st)) = tick_reported st"
  "snd (run_steps steps st) = thrown_by steps"
  by (induction steps st rule: run_steps.induct) (simp_all add: nextTick_fields)

lemma timer_of_update [simp]:
  "timer_of (st\<lparr>ran := r\<rparr>) = timer_of st"
  "timer_of (st\<lparr>resolved := x\<rparr>) = timer_of st"
  "timer_of (st\<lparr>tick_reported := y\<rparr>) = timer_of st"
  "timer_of (st\<lparr>callbacks := z\<rparr>) = timer_of st"
  "timer_of (st\<lparr>pending := b\<rparr>) = timer_of st"
  by (simp_all add: timer_of_def)

lemma invoke_cases:
  "invoke wr st =
     (case w_cb wr of
        None \<Rightarrow> (if w_resolve wr then st\<lparr>resolved := resolved st @ [w_ctx wr]\<rparr> else st, None)
      | Some (TickCb l steps) \<Rightarrow>
          (let st1 = fst (run_steps steps (st\<lparr>ran := ran st @ [l]\<rparr>))
           in (case thrown_by steps of
                 None \<Rightarrow> st1
               | Some e \<Rightarrow> st1\<lparr>tick_reported := tick_reported st1 @ [(e, w_ctx wr, NextTickInfo)]\<rparr>,
               None)))"
proof (cases "w_cb wr")
  case None
  then show ?thesis by (simp add: invoke_def)
next
  case (Some c)
  obtain l steps where c: "c = TickCb l steps" by (cases c)
  obtain st1 r where rs: "run_steps steps (st\<lparr>ran := ran st @ [l]\<rparr>) = (st1, r)"
    by (cases "run_steps steps (st\<lparr>ran := ran st @ [l]\<rparr>)")
  have r: "thrown_by steps = r"
    using rs run_steps_fields(9) [of steps "st\<lparr>ran := ran st @ [l]\<rparr>"] by simp
  show ?thesis
    using Some c rs r by (cases r) (simp_all add: invoke_def handleError_def)
qed

lemma invoke_fields:
  "callbacks (fst (invoke wr st)) =
     callbacks st @ map (wrap (hasPromise st)) (scheduled_by (steps_of wr))"
  "pending (fst (invoke wr st)) = (pending st \<or> scheduled_by (steps_of wr) \<noteq> [])"
  "timers (fst (invoke wr st)) =
     timers st @ (if \<not> pending st \<and> scheduled_by (steps_of wr) \<noteq> [] then [timer_of st] else [])"
  "useMacroTask (fst (invoke wr st)) = useMacroTask st"
  "hasPromise (fst (invoke wr st)) = hasPromise st"
  "ran (fst (invoke wr st)) = ran st @ label_of wr"
  "tick_reported (fst (invoke wr st)) = tick_reported st @ errors_of [wr]"
  "snd (invoke wr st) = None"
  by (simp_all add: invoke_cases run_steps_fields Let_def errors_of_def steps_of_def label_of_def
        split: option.splits tick_cb.splits)

lemma timer_of_invoke [simp]: "timer_of (fst (invoke wr st)) = timer_of st"
  by (simp add: timer_of_def invoke_fields)

lemma invoke_all_Cons: "invoke_all (wr # wrs) st = invoke_all wrs (fst (invoke wr st))"
  using invoke_fields(8) [of wr st] by (cases "invoke wr st") simp

lemma nested_Cons: "nested (wr # wrs) = scheduled_by (steps_of wr) @ nested wrs"
  by (simp add: nested_def)

lemma errors_of_Cons: "errors_of (wr # wrs) = errors_of [wr] @ errors_of wrs"
  by (simp add: errors_of_def)

lemma invoke_all_fields:
  "callbacks (fst (invoke_all wrs st)) = callbacks st @ map (wrap (hasPromise st)) (nested wrs)"
  "pending (fst (invoke_all wrs st)) = (pending st \<or> nested wrs \<noteq> [])"
  "timers (fst (invoke_all wrs st)) =
     timers st @ (if \<not> pending st \<and> nested wrs \<noteq> [] then [timer_of st] else [])"
  "ran (fst (invoke_all wrs st)) = ran st @ concat (map label_of wrs)"
  "tick_reported (fst (invoke_all wrs st)) = tick_reported st @ errors_of wrs"
  "snd (invoke_all wrs st) = None"
proof (induction wrs arbitrary: st)
  case Nil
  {
    case 1 show ?case by (simp add: nested_def)
  next
    case 2 show ?case by (simp add: nested_def)
  next
    case 3 show ?case by (simp add: nested_def)
  next
    case 4 show ?case by simp
  next
    case 5 show ?case by (simp add: errors_of_def)
  next
    case 6 show ?case by simp
  }
next
  case (Cons wr wrs)
  {
    case 1 show ?case
      unfolding invoke_all_Cons Cons.IH(1) by (simp add: invoke_fields nested_Cons)
  next
    case 2 show ?case
      unfolding invoke_all_Cons Cons.IH(2) by (simp add: invoke_fields nested_Cons)
  next
    case 3 show ?case
      unfolding invoke_all_Cons Cons.IH(3) by (simp add: invoke_fields nested_Cons)
  next
    case 4 show ?case
      unfolding invoke_all_Cons Cons.IH(4) by (simp add: invoke_fields)
  next
    case 5 show ?case
      unfolding invoke_all_Cons Cons.IH(5)
      by (simp add: invoke_fields errors_of_Cons [of wr wrs])
  next
    case 6 show ?case
      unfolding invoke_all_Cons Cons.IH(6) by simp
  }
qed

lemma flushCallbacks_fields:
  "callbacks (fst (flushCallbacks st)) = map (wrap (hasPromise st)) (nested (callbacks st))"
  "pending (fst (flushCallbacks st)) = (nested (callbacks st) \<noteq> [])"
  "timers (fst (flushCallbacks st)) =
     timers st @ (if nested (callbacks st) \<noteq> [] then [timer_of st] else [])"
  "ran (fst (flushCallbacks st)) = ran st @ concat (map label_of (callbacks st))"
  "tick_reported (fst (flushCallbacks st)) = tick_reported st @ errors_of (callbacks st)"
  "snd (flushCallbacks st) = None"
  by (simp_all add: flushCallbacks_def Let_def invoke_all_fields)

text \<open>
  C6: \<open>flushCallbacks\<close> resets \<open>pending\<close> and empties the live list before it calls
  the copies. So the callbacks it calls are exactly those of the list at its start, in
  order; the live list afterwards holds exactly the callbacks scheduled during the drain,
  and one new flush is scheduled if there is any (none otherwise). A call of \<open>nextTick\<close>
  appends its closure, and schedules a flush only when none is pending.
\<close>

theorem flush_starts_fresh_batch:
  "ran (fst (flushCallbacks st)) = ran st @ concat (map label_of (callbacks st)) \<and>
   callbacks (fst (flushCallbacks st)) = map (wrap (hasPromise st)) (nested (callbacks st)) \<and>
   pending (fst (flushCallbacks st)) = (nested (callbacks st) \<noteq> []) \<and>
   timers (fst (flushCallbacks st)) =
     timers st @ (if nested (callbacks st) \<noteq> [] then [timer_of st] else []) \<and>
   callbacks (nextTick st c ctx) = callbacks st @ [wrap (hasPromise st) (c, ctx)] \<and>
   pending (nextTick st c ctx) \<and>
   timers (nextTick st c ctx) = (if pending st then timers st else timers st @ [timer_of st])"
  by (simp add: flushCallbacks_fields nextTick_fields)

lemma two_pending_fields:
  "callbacks two_pending =
     [\<lparr>w_cb = Some first_cb, w_ctx = Str ''a'', w_resolve = False\<rparr>,
      \<lparr>w_cb = Some (TickCb 2 []), w_ctx = Null, w_resolve = False\<rparr>]"
  "timers two_pending = [MicroTask]" "pending two_pending" "ran two_pending = []"
  "hasPromise two_pending" "tick_reported two_pending = []"
  by (simp_all add: two_pending_def nextTick_fields tick_idle_def wrap_def timer_of_def)

theorem flush_starts_fresh_batch_witness:
  "ran (fst (flushCallbacks two_pending)) = [1, 2] \<and>
   callbacks (fst (flushCallbacks two_pending)) =
     [\<lparr>w_cb = Some (TickCb 3 []), w_ctx = Undefined, w_resolve = False\<rparr>] \<and>
   pending (fst (flushCallbacks two_pending)) \<and>
   timers (fst (flushCallbacks two_pending)) = [MicroTask, MicroTask] \<and>
   timers (nextTick two_pending None Null) = [MicroTask]"
  using flush_starts_fresh_batch [of two_pending None Null]
  by (simp add: two_pending_fields nested_def steps_of_def label_of_def first_cb_def wrap_def
        timer_of_def two_pending_def nextTick_fields tick_idle_def)

section \<open>Errors of callbacks\<close>

lemma run_user_never_throws: "user (watchers st w) \<Longrightarrow> snd (run env st w) = None"
proof -
  assume u: "user (watchers st w)"
  obtain st1 r where g: "get env st w = (st1, r)" by (cases "get env st w")
  have u1: "user (watchers st1 w)"
    using u g get_fields [of env st w w] by simp
  have "r \<noteq> Inl e" for e
    using g u get_result [of env st w] by (auto split: sum.splits)
  then obtain v where r: "r = Inr v" by (cases r) auto
  show ?thesis
    using g r u1 by (simp add: run_def Let_def split: option.splits)
qed

lemma run_user_cb_throws:
  assumes "user (watchers st w)" and "active (watchers st w)"
    and "snd (get env st w) = Inr v"
    and "strict_ne v (wvalue (watchers st w)) \<or> isObject v \<or> deep (watchers st w)"
    and "cb (watchers st w) v (wvalue (watchers st w)) = Some e"
  shows "fired (fst (run env st w)) = fired st @ [(w, v, wvalue (watchers st w))] \<and>
         reported (fst (run env st w)) =
           reported (fst (get env st w)) @
             [(e, Ref (vm (watchers st w)), CallbackFor (expression (watchers st w)))]"
proof -
  obtain st1 r where g: "get env st w = (st1, r)" by (cases "get env st w")
  have st1: "st1 = fst (get env st w)" and r: "r = Inr v"
    using g assms(3) by simp_all
  have f: "config (watchers st1 w) = config (watchers st w)" "fired st1 = fired st"
    unfolding st1 by simp_all
  show ?thesis
    using assms g r f(2) config_eqD [OF f(1)]
    by (simp add: run_def Let_def handleError_def)
qed

text \<open>
  C7: no error escapes \<open>flushCallbacks\<close>: every callback of the batch is called, also
  after one of them has thrown, and each thrown error is passed to the error sink. For a
  user-defined watcher no error escapes \<open>run\<close>, and when its reaction callback throws, the
  error is passed to the error sink.
\<close>

theorem callback_errors_are_reported:
  assumes "user (watchers st w)"
  shows "snd (flushCallbacks ts) = None \<and>
         ran (fst (flushCallbacks ts)) = ran ts @ concat (map label_of (callbacks ts)) \<and>
         tick_reported (fst (flushCallbacks ts)) = tick_reported ts @ errors_of (callbacks ts) \<and>
         snd (run env st w) = None \<and>
         (\<forall>v e. active (watchers st w) \<and> snd (get env st w) = Inr v \<and>
                (strict_ne v (wvalue (watchers st w)) \<or> isObject v \<or> deep (watchers st w)) \<and>
                cb (watchers st w) v (wvalue (watchers st w)) = Some e \<longrightarrow>
                fired (fst (run env st w)) = fired st @ [(w, v, wvalue (watchers st w))] \<and>
                reported (fst (run env st w)) =
                  reported (fst (get env st w)) @
                    [(e, Ref (vm (watchers st w)), CallbackFor (expression (watchers st w)))])"
  using run_user_never_throws [OF assms] run_user_cb_throws [OF assms]
  by (simp add: flushCallbacks_fields)

theorem callback_errors_are_reported_witness:
  "snd (flushCallbacks two_pending) = None \<and>
   ran (fst (flushCallbacks two_pending)) = [1, 2] \<and>
   tick_reported (fst (flushCallbacks two_pending)) = [(UserError 9, Str ''a'', NextTickInfo)] \<and>
   snd (run plain_world failing_cb_state 1) = None \<and>
   fired (fst (run plain_world failing_cb_state 1)) = [(1, Num 1, Undefined)] \<and>
   reported (fst (run plain_world failing_cb_state 1)) = [(UserError 3, Ref 0, CallbackFor [])]"
proof -
  have u: "user (watchers failing_cb_state 1)"
    by (simp add: failing_cb_state_def with_watcher_def fresh_watcher_def)
  have g: "snd (get plain_world failing_cb_state 1) = Inr (Num 1)"
          "reported (fst (get plain_world failing_cb_state 1)) = []"
    by (simp_all add: get_result get_reported failing_cb_state_def with_watcher_def
          fresh_watcher_def empty_state_def returning_def)
  have w: "active (watchers failing_cb_state 1)"
          "wvalue (watchers failing_cb_state 1) = Undefined"
          "cb (watchers failing_cb_state 1) (Num 1) Undefined = Some (UserError 3)"
          "vm (watchers failing_cb_state 1) = 0" "expression (watchers failing_cb_state 1) = []"
          "fired failing_cb_state = []"
    by (simp_all add: failing_cb_state_def with_watcher_def fresh_watcher_def empty_state_def)
  have s: "strict_ne (Num 1) Undefined" by (simp add: strict_ne_def)
  from callback_errors_are_reported [OF u, of two_pending plain_world]
  have a: "snd (flushCallbacks two_pending) = None"
    and b: "ran (fst (flushCallbacks two_pending)) =
              ran two_pending @ concat (map label_of (callbacks two_pending))"
    and c: "tick_reported (fst (flushCallbacks two_pending)) =
              tick_reported two_pending @ errors_of (callbacks two_pending)"
    and d: "snd (run plain_world failing_cb_state 1) = None"
    and e: "fired (fst (run plain_world failing_cb_state 1)) = [(1, Num 1, Undefined)] \<and>
            reported (fst (run plain_world failing_cb_state 1)) = [(UserError 3, Ref 0, CallbackFor [])]"
    using g w s by auto
  show ?thesis
    using a b c d e
    by (simp add: two_pending_fields errors_of_def steps_of_def label_of_def first_cb_def)
qed

section \<open>parsePath and the getter it returns\<close>

lemma split_dot_nonempty: "split_dot p \<noteq> []"
  by (induction p) (auto split: list.splits)

lemma getProp_truthy: "\<not> falsy obj \<Longrightarrow> getProp env obj key = Inr (readProp env obj key)"
  by (auto simp: getProp_def falsy_def)

lemma path_loop_returns: "\<exists>x. outcome (path_loop env segs obj rs) = Inr x"
proof (induction segs arbitrary: obj rs)
  case Nil
  then show ?case by simp
next
  case (Cons s ss)
  show ?case
  proof (cases "falsy obj")
    case True
    then show ?thesis by simp
  next
    case False
    obtain ds v where r: "readProp env obj s = (ds, v)" by (cases "readProp env obj s")
    show ?thesis
      using False r Cons.IH [of v "rs @ ds"] by (simp add: getProp_truthy)
  qed
qed

lemma path_loop_falsy:
  "falsy obj \<Longrightarrow> segs \<noteq> [] \<Longrightarrow> path_loop env segs obj rs = \<lparr>reads = rs, outcome = Inr Undefined\<rparr>"
  by (cases segs) simp_all

lemma path_loop_append:
  "path_loop env (pre @ post) obj rs =
     (case outcome (path_loop env pre obj rs) of
        Inr x \<Rightarrow> path_loop env post x (reads (path_loop env pre obj rs))
      | Inl e \<Rightarrow> path_loop env pre obj rs)"
proof (induction pre arbitrary: obj rs)
  case Nil
  then show ?case by simp
next
  case (Cons s ss)
  show ?case
  proof (cases "falsy obj")
    case True
    have u: "falsy Undefined" by (simp add: falsy_def)
    show ?thesis
      using True u by (cases post) simp_all
  next
    case False
    obtain ds v where r: "readProp env obj s = (ds, v)" by (cases "readProp env obj s")
    show ?thesis
      using False r Cons.IH [of v "rs @ ds"] by (simp add: getProp_truthy split: sum.splits)
  qed
qed

lemma path_getter_falsy_inside:
  assumes "outcome (path_getter pre env obj) = Inr x" and "falsy x" and "post \<noteq> []"
  shows "outcome (path_getter (pre @ post) env obj) = Inr Undefined"
  using assms by (simp add: path_getter_def path_loop_append path_loop_falsy)

lemma noop_pass: "getter (watchers st w) = noop \<Longrightarrow> pass_reads env st w = []"
  by (simp add: pass_reads_def noop_def traverse_reads_def isObject_def)

lemma noop_get:
  "getter (watchers st w) = noop \<Longrightarrow> snd (get env st w) = Inr Undefined"
  by (simp add: get_result noop_def)

lemma Watcher_new_noop:
  assumes "getter_of x = noop"
  shows "snd (Watcher_new env st v x cbf opts r) = Inr (Suc (uid st)) \<and>
         wvalue (watchers (fst (Watcher_new env st v x cbf opts r)) (Suc (uid st))) = Undefined \<and>
         deps (watchers (fst (Watcher_new env st v x cbf opts r)) (Suc (uid st))) = [] \<and>
         getter (watchers (fst (Watcher_new env st v x cbf opts r)) (Suc (uid st))) = noop \<and>
         subs (fst (Watcher_new env st v x cbf opts r)) = subs st"
proof -
  let ?n = "Suc (uid st)"
  define W where "W = \<lparr>vm = v,
               expression = (if production env then [] else toString x),
               cb = cbf,
               deep = (case opts of Some p \<Rightarrow> opt_deep p | None \<Rightarrow> False),
               user = (case opts of Some p \<Rightarrow> opt_user p | None \<Rightarrow> False),
               lazy = (case opts of Some p \<Rightarrow> opt_lazy p | None \<Rightarrow> False),
               sync = (case opts of Some p \<Rightarrow> opt_sync p | None \<Rightarrow> False),
               dirty = (case opts of Some p \<Rightarrow> opt_lazy p | None \<Rightarrow> False),
               active = True,
               deps = [], newDeps = [], depIds = {}, newDepIds = {},
               getter = getter_of x,
               wvalue = Undefined\<rparr>"
  define c2 where "c2 = (if r then (vms st v)\<lparr>vm_watcher := Some ?n\<rparr> else vms st v)
                          \<lparr>vm_watchers := vm_watchers (if r then (vms st v)\<lparr>vm_watcher := Some ?n\<rparr> else vms st v) @ [?n]\<rparr>"
  define st1 where "st1 = st\<lparr>watchers := (watchers st)(?n := W), vms := (vms st)(v := c2), uid := ?n\<rparr>"
  have new: "Watcher_new env st v x cbf opts r =
     (if lazy W then (st1, Inr ?n)
      else (case get env st1 ?n of
              (st2, Inl e) \<Rightarrow> (st2, Inl e)
            | (st2, Inr y) \<Rightarrow>
                (st2\<lparr>watchers := (watchers st2)(?n := (watchers st2 ?n)\<lparr>wvalue := y\<rparr>)\<rparr>, Inr ?n)))"
    by (simp add: Watcher_new_def Let_def W_def c2_def st1_def)
  have g: "getter (watchers st1 ?n) = noop" using assms by (simp add: st1_def W_def)
  have w1: "watchers st1 ?n = W" "subs st1 = subs st" by (simp_all add: st1_def)
  have Wf: "deps W = []" "newDeps W = []" "depIds W = {}" "newDepIds W = {}"
           "wvalue W = Undefined" "getter W = noop"
    using assms by (simp_all add: W_def)
  show ?thesis
  proof (cases "lazy W")
    case True
    then show ?thesis using new w1 Wf by simp
  next
    case False
    obtain st2 y where gt: "get env st1 ?n = (st2, y)" by (cases "get env st1 ?n")
    have y: "y = Inr Undefined" using gt noop_get [OF g, of env] by simp
    have st2: "st2 = fst (get env st1 ?n)" using gt by simp
    have d: "deps (watchers st2 ?n) = []" "getter (watchers st2 ?n) = noop"
      unfolding st2 using w1 Wf by (simp_all add: get_this noop_pass [OF g])
    have s: "subs st2 = subs st"
      unfolding st2 using w1 Wf by (simp add: fun_eq_iff get_subs_of noop_pass [OF g])
    show ?thesis using new False gt y d s by simp
  qed
qed


lemma bail_examples:
  "bailRE_test ''a-b''" "\<not> bailRE_test ''a.b$c''" "split_dot ''a.b$c'' = [''a'', ''b$c'']"
  by (simp_all add: bailRE_test_def bail_char_def word_char_def)


section \<open>Termination of the deep traversal\<close>

lemma traverse_each_mono:
  assumes "\<And>c a b. f c a = Some b \<Longrightarrow> g c a = Some b"
  shows "traverse_each f cs s = Some s' \<Longrightarrow> traverse_each g cs s = Some s'"
proof (induction cs arbitrary: s)
  case Nil
  then show ?case by simp
next
  case (Cons c cs)
  then show ?case
    using assms by (auto split: option.splits)
qed

lemma traverse_each_grows:
  assumes "\<And>c a b. f c a = Some b \<Longrightarrow> a \<subseteq> b"
  shows "traverse_each f cs s = Some s' \<Longrightarrow> s \<subseteq> s'"
proof (induction cs arbitrary: s)
  case Nil
  then show ?case by simp
next
  case (Cons c cs)
  then show ?case
    using assms by (fastforce split: option.splits)
qed

lemma traverse_fuel_Suc:
  "traverse_fuel n h v seen = Some s \<Longrightarrow> traverse_fuel (Suc n) h v seen = Some s"
proof (induction n arbitrary: v seen s)
  case 0
  then show ?case by simp
next
  case (Suc n)
  have m: "traverse_each (traverse_fuel n h) cs a = Some b \<Longrightarrow>
           traverse_each (traverse_fuel (Suc n) h) cs a = Some b" for cs a b
    using traverse_each_mono [of "traverse_fuel n h" "traverse_fuel (Suc n) h"] Suc.IH by blast
  show ?case
    using Suc.prems m
    by (subst traverse_fuel.simps(2))
       (auto simp: Let_def split: val.splits if_splits option.splits)
qed

lemma traverse_fuel_mono:
  "n \<le> m \<Longrightarrow> traverse_fuel n h v seen = Some s \<Longrightarrow> traverse_fuel m h v seen = Some s"
proof (induction m)
  case 0
  then show ?case by simp
next
  case (Suc m)
  show ?case
  proof (cases "n = Suc m")
    case True
    then show ?thesis using Suc.prems by simp
  next
    case False
    then have "n \<le> m" using Suc.prems(1) by simp
    then have "traverse_fuel m h v seen = Some s" using Suc.IH Suc.prems(2) by blast
    then show ?thesis by (rule traverse_fuel_Suc)
  qed
qed

lemma traverse_fuel_grows: "traverse_fuel n h v seen = Some s \<Longrightarrow> seen \<subseteq> s"
proof (induction n arbitrary: v seen s)
  case 0
  then show ?case by simp
next
  case (Suc n)
  have g: "traverse_each (traverse_fuel n h) cs a = Some b \<Longrightarrow> a \<subseteq> b" for cs a b
    using traverse_each_grows [of "traverse_fuel n h"] Suc.IH by blast
  show ?case
    using Suc.prems g
    by (fastforce simp: Let_def split: val.splits if_splits option.splits)
qed

text \<open>The loop returns when each call returns, whatever the calls before it have added.\<close>

lemma traverse_each_returns:
  assumes "\<And>c s. c \<in> set cs \<Longrightarrow> s0 \<subseteq> s \<Longrightarrow> \<exists>n s'. traverse_fuel n h c s = Some s'"
  shows "\<exists>n s'. traverse_each (traverse_fuel n h) cs s0 = Some s'"
  using assms
proof (induction cs arbitrary: s0)
  case Nil
  then show ?case by simp
next
  case (Cons c cs)
  obtain n1 s1 where 1: "traverse_fuel n1 h c s0 = Some s1"
    using Cons.prems [of c s0] by auto
  have sub: "s0 \<subseteq> s1" using 1 by (rule traverse_fuel_grows)
  have "\<exists>n s'. traverse_each (traverse_fuel n h) cs s1 = Some s'"
  proof (rule Cons.IH)
    fix c' s assume "c' \<in> set cs" "s1 \<subseteq> s"
    then show "\<exists>n s'. traverse_fuel n h c' s = Some s'"
      using Cons.prems [of c' s] sub by auto
  qed
  then obtain n2 s2 where 2: "traverse_each (traverse_fuel n2 h) cs s1 = Some s2" by auto
  have a: "traverse_fuel (max n1 n2) h c s0 = Some s1"
    using 1 traverse_fuel_mono [of n1 "max n1 n2"] by simp
  have b: "traverse_each (traverse_fuel (max n1 n2) h) cs s1 = Some s2"
    using 2 traverse_each_mono [of "traverse_fuel n2 h" "traverse_fuel (max n1 n2) h"]
      traverse_fuel_mono [of n2 "max n1 n2"] by simp
  show ?case using a b by (intro exI [of _ "max n1 n2"]) simp
qed

lemma ob_ids_finite: "finite {d. \<exists>x \<in> set h. ob x = Some d}"
proof -
  have "{d. \<exists>x \<in> set h. ob x = Some d} \<subseteq> (\<lambda>x. the (ob x)) ` set h" by force
  then show ?thesis by (rule finite_subset) simp
qed

lemma plain_edges_finite: "finite (plain_edges h)"
proof -
  have "plain_edges h \<subseteq> {..<length h} \<times> {..<length h}"
    by (auto simp: plain_edges_def plain_def)
  then show ?thesis by (rule finite_subset) simp
qed

lemma traverse_fuel_skips:
  "(\<forall>r. v \<noteq> Ref r) \<or> (\<exists>r. v = Ref r \<and> (length h \<le> r \<or> isFrozen (h ! r) \<or> isVNode (h ! r)))
     \<Longrightarrow> traverse_fuel (Suc n) h v seen = Some seen"
  by (cases v) (auto simp: Let_def)

lemma traverse_fuel_revisit:
  "r < length h \<Longrightarrow> ob (h ! r) = Some d \<Longrightarrow> d \<in> seen
     \<Longrightarrow> traverse_fuel (Suc n) h (Ref r) seen = Some seen"
  by (simp add: Let_def)

lemma traverse_fuel_returns_ref:
  assumes "acyclic (plain_edges h)"
  shows "r < length h \<Longrightarrow> \<exists>n s. traverse_fuel n h (Ref r) seen = Some s"
proof -
  define ids where "ids = {d. \<exists>x \<in> set h. ob x = Some d}"
  have fin: "finite ids" unfolding ids_def by (rule ob_ids_finite)
  have wf: "wf (less_than <*lex*> plain_edges h)"
    using finite_acyclic_wf [OF plain_edges_finite assms] by (simp add: wf_lex_prod)
  have main: "\<forall>seen r. p = (card (ids - seen), r) \<longrightarrow> r < length h \<longrightarrow>
                (\<exists>n s. traverse_fuel n h (Ref r) seen = Some s)" for p
    using wf
  proof (induction p rule: wf_induct_rule)
    case (less p)
    show ?case
    proof (intro allI impI)
      fix seen r
      assume p: "p = (card (ids - seen), r)" and r: "r < length h"
      let ?x = "h ! r"
      have smaller: "\<exists>n s'. traverse_fuel n h (Ref r') s = Some s'"
        if "r' < length h" and "card (ids - s) < card (ids - seen) \<or>
             (card (ids - s) = card (ids - seen) \<and> (r', r) \<in> plain_edges h)" for r' s
      proof -
        have "((card (ids - s), r'), p) \<in> less_than <*lex*> plain_edges h"
          using that(2) p by auto
        then show ?thesis using less.IH that(1) by blast
      qed
      have each: "\<exists>n s'. traverse_fuel n h c s = Some s'"
        if c: "c \<in> set (elems ?x)" and s: "s0 \<subseteq> s"
          and s0: "card (ids - s0) < card (ids - seen) \<or> (s0 = seen \<and> plain h r)" for c s s0
      proof (cases "\<exists>r'. c = Ref r' \<and> r' < length h")
        case False
        then have "traverse_fuel (Suc 0) h c s = Some s"
          using traverse_fuel_skips [of c h 0 s] by (cases c) auto
        then show ?thesis by blast
      next
        case True
        then obtain r' where r': "c = Ref r'" "r' < length h" by auto
        have le: "card (ids - s) \<le> card (ids - s0)"
          using s fin by (intro card_mono) auto
        have le2: "s0 = seen \<Longrightarrow> card (ids - s) \<le> card (ids - seen)"
          using le by simp
        have edge: "plain h r \<Longrightarrow> (r', r) \<in> plain_edges h"
          using c r' by (simp add: plain_edges_def)
        have "card (ids - s) < card (ids - seen) \<or>
              (card (ids - s) = card (ids - seen) \<and> (r', r) \<in> plain_edges h)"
          using s0 le le2 edge by linarith
        then show ?thesis using smaller [OF r'(2)] r'(1) by simp
      qed
      have loop: "\<exists>n s'. traverse_each (traverse_fuel n h) (rev (elems ?x)) s0 = Some s'"
        if "card (ids - s0) < card (ids - seen) \<or> (s0 = seen \<and> plain h r)" for s0
        using each [OF _ _ that] by (intro traverse_each_returns) simp
      show "\<exists>n s. traverse_fuel n h (Ref r) seen = Some s"
      proof (cases "isFrozen ?x \<or> isVNode ?x")
        case True
        then have "traverse_fuel (Suc 0) h (Ref r) seen = Some seen"
          using r by (simp add: Let_def)
        then show ?thesis by blast
      next
        case False
        show ?thesis
        proof (cases "ob ?x")
          case None
          then have "plain h r" using False r by (simp add: plain_def)
          then obtain n s' where
            "traverse_each (traverse_fuel n h) (rev (elems ?x)) seen = Some s'"
            using loop [of seen] by auto
          then have "traverse_fuel (Suc n) h (Ref r) seen = Some s'"
            using r False None by (simp add: Let_def)
          then show ?thesis by blast
        next
          case (Some d)
          show ?thesis
          proof (cases "d \<in> seen")
            case True
            then have "traverse_fuel (Suc 0) h (Ref r) seen = Some seen"
              using r Some by (simp add: Let_def)
            then show ?thesis by blast
          next
            case False2: False
            have "d \<in> ids" unfolding ids_def using r Some nth_mem [OF r] by auto
            then have "ids - insert d seen \<subset> ids - seen" using False2 by auto
            then have "card (ids - insert d seen) < card (ids - seen)"
              using fin by (intro psubset_card_mono) auto
            then obtain n s' where
              "traverse_each (traverse_fuel n h) (rev (elems ?x)) (insert d seen) = Some s'"
              using loop [of "insert d seen"] by auto
            then have "traverse_fuel (Suc n) h (Ref r) seen = Some s'"
              using r False Some False2 by (simp add: Let_def)
            then show ?thesis by blast
          qed
        qed
      qed
    qed
  qed
  show "r < length h \<Longrightarrow> \<exists>n s. traverse_fuel n h (Ref r) seen = Some s"
    using main by blast
qed

lemma traverse_fuel_returns:
  assumes "acyclic (plain_edges h)"
  shows "\<exists>n s. traverse_fuel n h v seen = Some s"
proof (cases "\<exists>r. v = Ref r \<and> r < length h")
  case True
  then show ?thesis using traverse_fuel_returns_ref [OF assms] by blast
next
  case False
  then have "traverse_fuel (Suc 0) h v seen = Some seen"
    using traverse_fuel_skips [of v h 0 seen] by (cases v) auto
  then show ?thesis by blast
qed

lemma self_ref_never_returns: "traverse_fuel n self_ref (Ref 0) seen = None"
  by (induction n arbitrary: seen) (simp_all add: self_ref_def)

text \<open>
  Against C9 as stated: an object that is not instrumented (no \<open>__ob__\<close>), not frozen
  and no virtual node, and that holds a reference to itself. No depth of recursion is
  enough for \<open>traverse\<close> to return on it.
\<close>

theorem traverse_self_reference_diverges:
  "\<forall>n. traverse n self_ref (Ref 0) {} = None"
  by (simp add: traverse_def self_ref_never_returns)

text \<open>
  C9 (as amended): when every cycle of references passes through an object that is
  instrumented, frozen or a virtual node, \<open>traverse\<close> returns on every value, and the
  module's set is empty after the call. A value that is no object, a frozen object and a
  virtual node are skipped: \<open>_traverse\<close> returns at once and records nothing. An
  instrumented object whose registry identifier is already in the set makes \<open>_traverse\<close>
  return at once.
\<close>

theorem traverse_terminates:
  assumes "acyclic (plain_edges h)"
  shows "(\<exists>n. traverse n h v seenObjects = Some {}) \<and>
         (\<forall>n s. traverse n h v seenObjects = Some s \<longrightarrow> s = {}) \<and>
         (\<forall>n seen. (\<forall>r. v \<noteq> Ref r) \<or>
                    (\<exists>r. v = Ref r \<and> r < length h \<and> (isFrozen (h ! r) \<or> isVNode (h ! r))) \<longrightarrow>
                    traverse_fuel (Suc n) h v seen = Some seen) \<and>
         (\<forall>n r d seen. r < length h \<and> ob (h ! r) = Some d \<and> d \<in> seen \<longrightarrow>
                    traverse_fuel (Suc n) h (Ref r) seen = Some seen)"
proof (intro conjI)
  obtain n s where "traverse_fuel n h v seenObjects = Some s"
    using traverse_fuel_returns [OF assms] by blast
  then have "traverse n h v seenObjects = Some {}" by (simp add: traverse_def)
  then show "\<exists>n. traverse n h v seenObjects = Some {}" ..
next
  show "\<forall>n s. traverse n h v seenObjects = Some s \<longrightarrow> s = {}"
    by (auto simp: traverse_def split: option.splits)
next
  show "\<forall>n seen. (\<forall>r. v \<noteq> Ref r) \<or>
                    (\<exists>r. v = Ref r \<and> r < length h \<and> (isFrozen (h ! r) \<or> isVNode (h ! r))) \<longrightarrow>
                    traverse_fuel (Suc n) h v seen = Some seen"
    using traverse_fuel_skips [of v h] by blast
next
  show "\<forall>n r d seen. r < length h \<and> ob (h ! r) = Some d \<and> d \<in> seen \<longrightarrow>
                    traverse_fuel (Suc n) h (Ref r) seen = Some seen"
    using traverse_fuel_revisit [of _ h] by blast
qed

lemma mixed_heap_acyclic: "acyclic (plain_edges mixed_heap)"
proof -
  have "plain_edges mixed_heap \<subseteq> measure (\<lambda>r. if r = 1 then 1 else 0)"
    by (auto simp: plain_edges_def plain_def mixed_heap_def nth_Cons' split: if_splits)
  then have "wf (plain_edges mixed_heap)"
    by (rule wf_subset [OF wf_measure])
  then show ?thesis by (rule wf_acyclic)
qed

theorem traverse_terminates_witness:
  "(\<exists>n. traverse n mixed_heap (Ref 0) {} = Some {}) \<and>
   traverse_fuel (Suc (Suc (Suc 0))) mixed_heap (Ref 0) {} = Some {10} \<and>
   traverse_fuel (Suc (Suc 0)) mixed_heap (Ref 0) {} = None"
  using traverse_terminates [OF mixed_heap_acyclic, of "Ref 0" "{}"]
  by (simp add: mixed_heap_def)

end
